theory Spec2Isabelle
  imports Main "HOL-Library.AList"
begin

section \<open>The document tree\<close>

text \<open>
  The plugin of \<^verbatim>\<open>src/index.ts\<close> works on a hast tree. A node is an element (tag name,
  properties, children), a text, a comment or a doctype; the root is the list of its
  children. Properties are kept as an association list in insertion order, as a JavaScript
  object keeps its keys; the source reads the \<^verbatim>\<open>id\<close> property \<^verbatim>\<open>as string\<close>, and
  property values are strings here.
\<close>

datatype node =
    Element string "(string \<times> string) list" "node list"
  | Text string
  | Comment string
  | Doctype

type_synonym root = "node list"

text \<open>\<^verbatim>\<open>h(selector, properties, ...children)\<close> of hastscript, for a plain tag name.\<close>

definition h :: "string \<Rightarrow> (string \<times> string) list \<Rightarrow> node list \<Rightarrow> node" where
  "h tag props kids = Element tag props kids"

section \<open>Strings\<close>

text \<open>
  A string is a list of code units below U+0100 (ASCII and Latin-1). On these,
  \<^verbatim>\<open>String.prototype.trim\<close> removes tab, line feed, vertical tab, form feed, carriage
  return, space and no-break space from both ends, and \<^verbatim>\<open>toLowerCase\<close> maps
  \<^verbatim>\<open>A\<close> to \<^verbatim>\<open>Z\<close> and U+00C0 to U+00DE, but for the multiplication sign U+00D7, to the
  letter 32 places further.
\<close>

definition is_space :: "char \<Rightarrow> bool" where
  "is_space c = (c \<in> set [CHR 0x09, CHR 0x0A, CHR 0x0B, CHR 0x0C, CHR 0x0D, CHR 0x20, CHR 0xA0])"

definition trim :: "string \<Rightarrow> string" where
  "trim s = rev (dropWhile is_space (rev (dropWhile is_space s)))"

definition char_code :: "char \<Rightarrow> nat" where
  "char_code c = of_char c"

definition between :: "nat \<Rightarrow> char \<Rightarrow> nat \<Rightarrow> bool" where
  "between lo c hi = (lo \<le> char_code c \<and> char_code c \<le> hi)"

definition lower_char :: "char \<Rightarrow> char" where
  "lower_char c =
     (if between 0x41 c 0x5A \<or> (between 0xC0 c 0xDE \<and> char_code c \<noteq> 0xD7)
      then char_of (char_code c + 32) else c)"

definition toLowerCase :: "string \<Rightarrow> string" where
  "toLowerCase s = map lower_char s"

text \<open>The decimal rendering of a count, as string concatenation with a number gives it.\<close>

fun string_of_nat :: "nat \<Rightarrow> string" where
  "string_of_nat n =
     (if n < 10 then [char_of (48 + n)]
      else string_of_nat (n div 10) @ [char_of (48 + n mod 10)])"

declare string_of_nat.simps [simp del]

section \<open>The slugger\<close>

text \<open>
  \<^verbatim>\<open>new GitHubSlugger()\<close> comes from the package github-slugger. Its state is the table
  \<^verbatim>\<open>occurrences\<close>; \<^verbatim>\<open>slug(value)\<close> lower-cases the value, deletes the characters of
  the package's regular expression, turns each space into a hyphen, and then appends
  \<^verbatim>\<open>-1\<close>, \<^verbatim>\<open>-2\<close>, ... until the result is not a key of the table. Below U+0100 the
  regular expression is
  \<^verbatim>\<open>[\0-\x1F!-,\.\/:-@\[-\^`\{-\xA9\xAB-\xB4\xB6-\xB9\xBB-\xBF\xD7\xF7]\<close>: it leaves
  letters, digits, space, hyphen and underscore.
\<close>

type_synonym slugger = "(string \<times> nat) list"

definition slugger_new :: slugger where
  "slugger_new = []"

definition slug_removed :: "char \<Rightarrow> bool" where
  "slug_removed c =
     (between 0x00 c 0x1F \<or> between 0x21 c 0x2C \<or> char_code c = 0x2E \<or> char_code c = 0x2F
      \<or> between 0x3A c 0x40 \<or> between 0x5B c 0x5E \<or> char_code c = 0x60
      \<or> between 0x7B c 0xA9 \<or> between 0xAB c 0xB4 \<or> between 0xB6 c 0xB9
      \<or> between 0xBB c 0xBF \<or> char_code c = 0xD7 \<or> char_code c = 0xF7)"

definition slug_base :: "string \<Rightarrow> string" where
  "slug_base v =
     map (\<lambda>c. if c = CHR '' '' then CHR ''-'' else c)
       (filter (\<lambda>c. \<not> slug_removed c) (toLowerCase v))"

definition has_key :: "slugger \<Rightarrow> string \<Rightarrow> bool" where
  "has_key occ k = (k \<in> set (map fst occ))"

definition numbered :: "string \<Rightarrow> nat \<Rightarrow> string" where
  "numbered original n = original @ ''-'' @ string_of_nat n"

text \<open>
  The \<^verbatim>\<open>while\<close> loop of \<^verbatim>\<open>slug\<close>, entered when the plain slug is taken: \<open>n\<close> is the
  value of \<^verbatim>\<open>occurrences[originalSlug]\<close>, incremented until the numbered slug is free.
\<close>

function slug_loop :: "slugger \<Rightarrow> string \<Rightarrow> nat \<Rightarrow> nat" where
  "slug_loop occ original n =
     (if has_key occ (numbered original (Suc n)) then slug_loop occ original (Suc n)
      else Suc n)"
  by pat_completeness auto

lemma string_of_nat_bound: "n < 10 ^ length (string_of_nat n)"
proof (induction n rule: string_of_nat.induct)
  case (1 n)
  show ?case
  proof (cases "n < 10")
    case True
    then show ?thesis by (subst string_of_nat.simps) simp
  next
    case False
    then have "n div 10 < 10 ^ length (string_of_nat (n div 10))" using 1 by simp
    then have "n < 10 * 10 ^ length (string_of_nat (n div 10))" by simp
    with False show ?thesis by (subst string_of_nat.simps) simp
  qed
qed

definition key_room :: "slugger \<Rightarrow> nat" where
  "key_room occ = 10 ^ sum_list (map (length \<circ> fst) occ)"

lemma key_length_le:
  "(k, v) \<in> set occ \<Longrightarrow> length k \<le> sum_list (map (length \<circ> fst) occ)"
  by (induction occ) auto

lemma has_key_room:
  assumes "has_key occ (numbered original n)"
  shows "n < key_room occ"
proof -
  from assms obtain v where "(numbered original n, v) \<in> set occ"
    by (auto simp: has_key_def)
  then have "length (numbered original n) \<le> sum_list (map (length \<circ> fst) occ)"
    by (rule key_length_le)
  then have "length (string_of_nat n) \<le> sum_list (map (length \<circ> fst) occ)"
    by (simp add: numbered_def)
  then have "(10::nat) ^ length (string_of_nat n) \<le> key_room occ"
    unfolding key_room_def by (rule power_increasing) simp
  with string_of_nat_bound [of n] show ?thesis by simp
qed

termination slug_loop
  by (relation "measure (\<lambda>(occ, original, n). key_room occ - n)")
     (auto dest: has_key_room)

declare slug_loop.simps [simp del]

definition slugger_slug :: "slugger \<Rightarrow> string \<Rightarrow> string \<times> slugger" where
  "slugger_slug occ v =
     (let original = slug_base v in
      case map_of occ original of
        None \<Rightarrow> (original, AList.update original 0 occ)
      | Some n \<Rightarrow>
          (let n' = slug_loop occ original n; result = numbered original n'
           in (result, AList.update result 0 (AList.update original n' occ))))"

section \<open>Options and external functions\<close>

text \<open>
  \<^verbatim>\<open>Required<RehypeCustomTocOptions>\<close>. \<^verbatim>\<open>maxDepth\<close> is only compared with heading
  depths, which are natural numbers.
\<close>

record options =
  template :: "string \<Rightarrow> string"
  maxDepth :: nat
  ordered :: bool

definition defaultTemplate :: "string \<Rightarrow> string" where
  "defaultTemplate html =
     trim (''\<newline><aside class='' @ [CHR 0x22] @ ''toc'' @ [CHR 0x22] @ ''>\<newline>''
       @ ''    <h2>Contents</h2>\<newline>''
       @ ''    <nav>\<newline>''
       @ ''        '' @ html @ ''\<newline>''
       @ ''    </nav>\<newline>''
       @ ''</aside>'')"

definition DEFAULT_OPTIONS :: options where
  "DEFAULT_OPTIONS = \<lparr>template = defaultTemplate, maxDepth = 3, ordered = False\<rparr>"

text \<open>
  The functions the plugin imports from hast-util-to-text, hast-util-to-html and
  hast-util-from-html are parameters of the model.
\<close>

record libs =
  toText :: "node \<Rightarrow> string"
  toHtml :: "node \<Rightarrow> string"
  fromHtml :: "string \<Rightarrow> node list"

section \<open>Building the list\<close>

record heading =
  depth :: nat
  slug :: string
  htext :: string

datatype error = ParentNodeNotFound

text \<open>
  The loop of \<^verbatim>\<open>generateToc\<close> mutates the element \<^verbatim>\<open>toc\<close> through the references
  \<^verbatim>\<open>currentParent\<close> and \<^verbatim>\<open>parents\<close>. Here \<^verbatim>\<open>toc\<close> is a tree and a reference to one
  of its lists is the path of child indices that leads to it from \<^verbatim>\<open>toc\<close>; the loop
  only ever appends children, so a path keeps naming the same list.
\<close>

type_synonym path = "nat list"

fun children_of :: "node \<Rightarrow> node list" where
  "children_of (Element t p cs) = cs"
| "children_of n = []"

fun children_at :: "path \<Rightarrow> node \<Rightarrow> node list" where
  "children_at [] n = children_of n"
| "children_at (i # is) n =
     (if i < length (children_of n) then children_at is (children_of n ! i) else [])"

text \<open>\<^verbatim>\<open>ref.children.push(x)\<close> for the list at path \<open>ref\<close>.\<close>

fun push_at :: "path \<Rightarrow> node \<Rightarrow> node \<Rightarrow> node" where
  "push_at [] x (Element t p cs) = Element t p (cs @ [x])"
| "push_at (i # is) x (Element t p cs) =
     (if i < length cs then Element t p (cs[i := push_at is x (cs ! i)]) else Element t p cs)"
| "push_at ref x n = n"

record build_state =
  toc :: node
  currentDepth :: nat
  currentParent :: path
  parents :: "path list"

text \<open>
  The inner \<^verbatim>\<open>for\<close> loop of the shallower branch, \<open>n\<close> iterations to go:
  \<^verbatim>\<open>parents.pop()\<close>, then \<^verbatim>\<open>parents[parents.length - 1]\<close>, which is undefined on the
  empty array, and then the loop throws.
\<close>

fun pop_frames :: "nat \<Rightarrow> path list \<times> path \<Rightarrow> error + path list \<times> path" where
  "pop_frames 0 (ps, cur) = Inr (ps, cur)"
| "pop_frames (Suc n) (ps, cur) =
     (let ps' = butlast ps in
      if ps' = [] then Inl ParentNodeNotFound else pop_frames n (ps', last ps'))"

text \<open>The body of \<^verbatim>\<open>for (const heading of headings)\<close>.\<close>

definition loop_body :: "options \<Rightarrow> build_state \<Rightarrow> heading \<Rightarrow> error + build_state" where
  "loop_body opts st heading =
     (if depth heading > maxDepth opts then Inr st
      else
        let li = h ''li'' [] [h ''a'' [(''href'', ''#'' @ slug heading)] [Text (htext heading)]] in
        if depth heading = currentDepth st then
          Inr (st\<lparr>toc := push_at (currentParent st) li (toc st), currentDepth := depth heading\<rparr>)
        else if depth heading > currentDepth st then
          let ul = h (if ordered opts then ''ol'' else ''ul'') [] [li];
              ul_ref = currentParent st @ [length (children_at (currentParent st) (toc st))]
          in Inr (st\<lparr>toc := push_at (currentParent st) ul (toc st),
                      currentParent := ul_ref,
                      parents := parents st @ [ul_ref],
                      currentDepth := depth heading\<rparr>)
        else
          (case pop_frames (currentDepth st - depth heading) (parents st, currentParent st) of
             Inl e \<Rightarrow> Inl e
           | Inr (ps, cur) \<Rightarrow>
               Inr (st\<lparr>parents := ps, currentParent := cur,
                       toc := push_at cur li (toc st), currentDepth := depth heading\<rparr>)))"

fun for_headings :: "options \<Rightarrow> build_state \<Rightarrow> heading list \<Rightarrow> error + build_state" where
  "for_headings opts st [] = Inr st"
| "for_headings opts st (heading # rest) =
     (case loop_body opts st heading of
        Inl e \<Rightarrow> Inl e
      | Inr st' \<Rightarrow> for_headings opts st' rest)"

text \<open>
  The state before the loop: the empty list \<^verbatim>\<open>toc\<close>, \<^verbatim>\<open>currentDepth = headings[0].depth\<close>,
  \<^verbatim>\<open>currentParent = toc\<close> and \<^verbatim>\<open>parents = [toc]\<close>.
\<close>

definition initial_state :: "options \<Rightarrow> heading \<Rightarrow> build_state" where
  "initial_state opts first =
     \<lparr>toc = Element (if ordered opts then ''ol'' else ''ul'') [] [],
      currentDepth = depth first, currentParent = [], parents = [[]]\<rparr>"

text \<open>
  \<^verbatim>\<open>generateToc\<close> from the check of \<^verbatim>\<open>isNonEmptyArray(headings)\<close> to the end of the
  loop: \<open>None\<close> when there is no heading (the function returns \<^verbatim>\<open>[]\<close>), the list
  \<^verbatim>\<open>toc\<close> otherwise, or the error thrown.
\<close>

definition outline :: "options \<Rightarrow> heading list \<Rightarrow> error + node option" where
  "outline opts headings =
     (case headings of
        [] \<Rightarrow> Inr None
      | first # rest \<Rightarrow>
          (case for_headings opts (initial_state opts first) headings of
             Inl e \<Rightarrow> Inl e
           | Inr st \<Rightarrow> Inr (Some (toc st))))"

section \<open>Collecting the headings\<close>

definition heading_tags :: "string list" where
  "heading_tags = [''h1'', ''h2'', ''h3'', ''h4'', ''h5'', ''h6'']"

text \<open>
  \<^verbatim>\<open>parseInt(s, 10)\<close> on a string that starts with digits; the source applies it to the
  digit of a heading tag only.
\<close>

definition is_digit :: "char \<Rightarrow> bool" where
  "is_digit c = between 0x30 c 0x39"

definition parseInt :: "string \<Rightarrow> nat" where
  "parseInt s = foldl (\<lambda>a c. 10 * a + (char_code c - 48)) 0 (takeWhile is_digit s)"

text \<open>
  \<^verbatim>\<open>(node.properties["id"] as string) || slugger.slug(text)\<close>: an absent or empty
  \<^verbatim>\<open>id\<close> is falsy, and only then is the slugger called.
\<close>

definition resolve_slug :: "(string \<times> string) list \<Rightarrow> slugger \<Rightarrow> string \<Rightarrow> string \<times> slugger" where
  "resolve_slug props slugger txt =
     (case map_of props ''id'' of
        None \<Rightarrow> slugger_slug slugger txt
      | Some i \<Rightarrow> if i = [] then slugger_slug slugger txt else (i, slugger))"

text \<open>
  \<^verbatim>\<open>visit(tree, "element", visitor)\<close> of unist-util-visit calls the visitor on every
  element in document order, a node before its children. The visitor returns at once
  unless the tag is one of \<^verbatim>\<open>h1\<close> to \<^verbatim>\<open>h6\<close>; otherwise it writes the \<^verbatim>\<open>id\<close> property
  of the node and pushes a record on \<^verbatim>\<open>headings\<close>. The state threaded through the walk
  is the slugger and the array \<^verbatim>\<open>headings\<close>.
\<close>

fun visit :: "libs \<Rightarrow> node \<Rightarrow> slugger \<times> heading list \<Rightarrow> node \<times> slugger \<times> heading list"
  and visit_children ::
    "libs \<Rightarrow> node list \<Rightarrow> slugger \<times> heading list \<Rightarrow> node list \<times> slugger \<times> heading list"
where
  "visit L (Element tagName props kids) (slugger, headings) =
     (if tagName \<in> set heading_tags then
        (let txt = trim (toText L (Element tagName props kids));
             (slug', slugger') = resolve_slug props slugger txt;
             props' = AList.update ''id'' slug' props;
             depth' = parseInt (drop 1 tagName);
             (kids', st') = visit_children L kids
               (slugger', headings @ [\<lparr>depth = depth', slug = slug', htext = txt\<rparr>])
         in (Element tagName props' kids', st'))
      else
        (let (kids', st') = visit_children L kids (slugger, headings)
         in (Element tagName props kids', st')))"
| "visit L (Text v) st = (Text v, st)"
| "visit L (Comment v) st = (Comment v, st)"
| "visit L Doctype st = (Doctype, st)"
| "visit_children L [] st = ([], st)"
| "visit_children L (n # ns) st =
     (let (n', st') = visit L n st;
          (ns', st'') = visit_children L ns st'
      in (n' # ns', st''))"

section \<open>generateToc\<close>

text \<open>
  The function returns the nodes to insert, or throws; in both cases the tree keeps the
  identifiers written during the walk, so the model returns the tree as well.
\<close>

definition generateToc :: "libs \<Rightarrow> options \<Rightarrow> root \<Rightarrow> root \<times> (error + node list)" where
  "generateToc L opts tree =
     (let (tree', slugger, headings) = visit_children L tree (slugger_new, []) in
      (tree',
       case outline opts headings of
         Inl e \<Rightarrow> Inl e
       | Inr None \<Rightarrow> Inr []
       | Inr (Some toc') \<Rightarrow> Inr (fromHtml L (template opts (toHtml L toc')))))"

section \<open>The transformer\<close>

text \<open>\<^verbatim>\<open>{ ...DEFAULT_OPTIONS, ...userOptions }\<close>: an option the user leaves out is \<open>None\<close>.\<close>

record userOptions =
  user_template :: "(string \<Rightarrow> string) option"
  user_maxDepth :: "nat option"
  user_ordered :: "bool option"

definition merge_options :: "userOptions \<Rightarrow> options" where
  "merge_options u =
     \<lparr>template = (case user_template u of None \<Rightarrow> template DEFAULT_OPTIONS | Some f \<Rightarrow> f),
      maxDepth = (case user_maxDepth u of None \<Rightarrow> maxDepth DEFAULT_OPTIONS | Some d \<Rightarrow> d),
      ordered = (case user_ordered u of None \<Rightarrow> ordered DEFAULT_OPTIONS | Some b \<Rightarrow> b)\<rparr>"

text \<open>\<^verbatim>\<open>node.value.trim().toLowerCase() !== "toc"\<close> is the test the comment visitor starts with.\<close>

definition is_marker :: "string \<Rightarrow> bool" where
  "is_marker v = (toLowerCase (trim v) = ''toc'')"

text \<open>\<^verbatim>\<open>children.splice(i, 1, ...tocNodes)\<close>.\<close>

definition splice :: "nat \<Rightarrow> node list \<Rightarrow> node list \<Rightarrow> node list" where
  "splice i tocNodes kids = take i kids @ tocNodes @ drop (Suc i) kids"

text \<open>
  \<^verbatim>\<open>visitParents(tree, "comment", visitor)\<close> of unist-util-visit-parents walks the children
  of a parent by an offset into the live array: it reads \<^verbatim>\<open>children[offset]\<close>, visits
  that node and its descendants, and goes on with \<^verbatim>\<open>offset + 1\<close> while the offset is
  below the current length. The visitor changes the array of the parent, or of the
  grandparent when the parent is a \<^verbatim>\<open>p\<close> element whose only child is the marker, so
  the walk goes on over what was inserted, and nothing bounds it: \<open>walk\<close> takes the
  number of steps it may make and is \<open>None\<close> when that is not enough.

  \<open>walk fuel tocNodes is_p offset kids (replaced, inserted)\<close> walks the children
  \<open>kids\<close> of one parent from \<open>offset\<close>; \<open>is_p\<close> tells that the parent is a \<^verbatim>\<open>p\<close>
  element. It returns the children, whether the visitor replaced the parent itself in
  the grandparent, and the flag \<^verbatim>\<open>tocInserted\<close>. A parent that is replaced keeps its
  one child, and the grandparent's array is changed when the walk is back there, at the
  offset of the parent, which is the index \<^verbatim>\<open>indexOf\<close> finds for a node that occurs
  once.

  Nodes are values here, where the source inserts the same objects \<^verbatim>\<open>tocNodes\<close> at
  every marker. The walk passes over the first inserted node and enters the others; the
  visitor changes an inserted object only if the walk meets a marker inside it, and then
  the object is inserted again behind the offset, in the source and here, and the walk
  has no end.
\<close>

fun walk ::
  "nat \<Rightarrow> node list \<Rightarrow> bool \<Rightarrow> nat \<Rightarrow> node list \<Rightarrow> bool \<times> bool \<Rightarrow> (node list \<times> bool \<times> bool) option"
where
  "walk 0 tocNodes is_p offset kids (replaced, inserted) = None"
| "walk (Suc fuel) tocNodes is_p offset kids (replaced, inserted) =
     (if offset < length kids then
        (case kids ! offset of
           Comment v \<Rightarrow>
             if \<not> is_marker v then walk fuel tocNodes is_p (offset + 1) kids (replaced, inserted)
             else if is_p \<and> length kids = 1 then
               walk fuel tocNodes is_p (offset + 1) kids (True, True)
             else
               walk fuel tocNodes is_p (offset + 1) (splice offset tocNodes kids) (replaced, True)
         | Element tagName props cs \<Rightarrow>
             (case walk fuel tocNodes (tagName = ''p'') 0 cs (False, inserted) of
                None \<Rightarrow> None
              | Some (cs', gone, inserted') \<Rightarrow>
                  if gone then
                    walk fuel tocNodes is_p (offset + 1) (splice offset tocNodes kids)
                      (replaced, inserted')
                  else
                    walk fuel tocNodes is_p (offset + 1) (kids[offset := Element tagName props cs'])
                      (replaced, inserted'))
         | Text v \<Rightarrow> walk fuel tocNodes is_p (offset + 1) kids (replaced, inserted)
         | Doctype \<Rightarrow> walk fuel tocNodes is_p (offset + 1) kids (replaced, inserted))
      else Some (kids, replaced, inserted))"

text \<open>
  The part of the transformer after \<^verbatim>\<open>generateToc\<close>: the walk from the root, then
  \<^verbatim>\<open>tree.children.unshift(...tocNodes)\<close> when no marker was met.
\<close>

definition insert_toc :: "nat \<Rightarrow> node list \<Rightarrow> root \<Rightarrow> root option" where
  "insert_toc fuel tocNodes tree =
     (case walk fuel tocNodes False 0 tree (False, False) of
        None \<Rightarrow> None
      | Some (kids, gone, tocInserted) \<Rightarrow>
          Some (if \<not> tocInserted then tocNodes @ kids else kids))"

text \<open>
  The transformer returns the tree it leaves behind, with the error if \<^verbatim>\<open>generateToc\<close>
  threw.
\<close>

definition transformer :: "libs \<Rightarrow> options \<Rightarrow> nat \<Rightarrow> root \<Rightarrow> (root \<times> error option) option" where
  "transformer L opts fuel tree =
     (case generateToc L opts tree of
        (tree', Inl e) \<Rightarrow> Some (tree', Some e)
      | (tree', Inr tocNodes) \<Rightarrow>
          (case insert_toc fuel tocNodes tree' of
             None \<Rightarrow> None
           | Some tree'' \<Rightarrow> Some (tree'', None)))"

definition rehypeCustomToc :: "libs \<Rightarrow> userOptions \<Rightarrow> nat \<Rightarrow> root \<Rightarrow> (root \<times> error option) option" where
  "rehypeCustomToc L u = transformer L (merge_options u)"

section \<open>Notions used to state the properties of the builder\<close>

text \<open>A heading takes part in the loop when its depth does not exceed \<^verbatim>\<open>maxDepth\<close>.\<close>

definition eligible :: "options \<Rightarrow> heading \<Rightarrow> bool" where
  "eligible opts heading = (depth heading \<le> maxDepth opts)"

text \<open>The list item the loop creates for a heading, followed by further children.\<close>

definition item :: "string \<Rightarrow> string \<Rightarrow> node list \<Rightarrow> node" where
  "item s t extra = Element ''li'' [] (Element ''a'' [(''href'', ''#'' @ s)] [Text t] # extra)"

text \<open>A path is a reference when it leads to an element.\<close>

fun is_list_at :: "path \<Rightarrow> node \<Rightarrow> bool" where
  "is_list_at [] (Element t p cs) = True"
| "is_list_at (i # is) (Element t p cs) = (i < length cs \<and> is_list_at is (cs ! i))"
| "is_list_at ref n = False"

text \<open>
  Flattening an outline: the nesting level of every list item, in document order, where
  the level of an item is the number of lists around it.
\<close>

fun item_levels :: "nat \<Rightarrow> node \<Rightarrow> nat list" where
  "item_levels lvl (Element t p cs) =
     (if t = ''li'' then lvl # concat (map (item_levels lvl) cs)
      else if t = ''ul'' \<or> t = ''ol'' then concat (map (item_levels (Suc lvl)) cs)
      else concat (map (item_levels lvl) cs))"
| "item_levels lvl n = []"

text \<open>
  The stack seen through its size only: \<open>frames_ok cur n ds\<close> follows the loop over the
  depths \<open>ds\<close> from the current depth \<open>cur\<close> with \<open>n\<close> frames on the stack. A deeper
  heading opens one frame; a shallower one asks for \<open>cur - d\<close> pops, which must leave a
  frame.
\<close>

fun frames_ok :: "nat \<Rightarrow> nat \<Rightarrow> nat list \<Rightarrow> bool" where
  "frames_ok cur n [] = True"
| "frames_ok cur n (d # ds) =
     (if d = cur then frames_ok cur n ds
      else if d > cur then frames_ok d (Suc n) ds
      else cur - d < n \<and> frames_ok d (n - (cur - d)) ds)"

text \<open>
  Depths that never go below \<open>d0\<close> and go deeper by one level at a time, after a heading
  of depth \<open>cur\<close>.
\<close>

fun stepwise :: "nat \<Rightarrow> nat \<Rightarrow> nat list \<Rightarrow> bool" where
  "stepwise d0 cur [] = True"
| "stepwise d0 cur (d # ds) = (d0 \<le> d \<and> d \<le> Suc cur \<and> stepwise d0 d ds)"

section \<open>Notions used to state the properties of the walks\<close>

text \<open>The headings \<^verbatim>\<open>generateToc\<close> collects from a tree, with a fresh slugger.\<close>

definition collectHeadings :: "libs \<Rightarrow> root \<Rightarrow> heading list" where
  "collectHeadings L tree = snd (snd (visit_children L tree (slugger_new, [])))"

text \<open>
  Two nodes that differ at most in the \<^verbatim>\<open>id\<close> property of heading elements, where the
  second has that property on every heading element.
\<close>

fun only_ids :: "node \<Rightarrow> node \<Rightarrow> bool" where
  "only_ids (Element t p cs) (Element t' p' cs') =
     (t' = t \<and> list_all2 only_ids cs cs' \<and>
      (if t \<in> set heading_tags
       then (case map_of p' ''id'' of None \<Rightarrow> False | Some s \<Rightarrow> p' = AList.update ''id'' s p)
       else p' = p))"
| "only_ids (Element t p cs) n' = False"
| "only_ids n n' = (n' = n)"

text \<open>The \<^verbatim>\<open>id\<close> properties of the heading elements of a node, in document order.\<close>

fun written_ids :: "node \<Rightarrow> string option list" where
  "written_ids (Element t p cs) =
     (if t \<in> set heading_tags then [map_of p ''id''] else []) @ concat (map written_ids cs)"
| "written_ids n = []"

text \<open>
  The property lists of the heading elements of a node, in document order. A heading has
  an identifier of its own when its \<^verbatim>\<open>id\<close> is a non-empty string; \<open>keeps_id\<close> says that
  such a heading keeps it, and \<open>generated\<close> lists the slugs of the other headings.
\<close>

fun heading_props :: "node \<Rightarrow> (string \<times> string) list list" where
  "heading_props (Element t p cs) =
     (if t \<in> set heading_tags then [p] else []) @ concat (map heading_props cs)"
| "heading_props n = []"

definition has_id :: "(string \<times> string) list \<Rightarrow> bool" where
  "has_id p = (case map_of p ''id'' of None \<Rightarrow> False | Some i \<Rightarrow> i \<noteq> [])"

definition keeps_id :: "(string \<times> string) list \<Rightarrow> heading \<Rightarrow> bool" where
  "keeps_id p x = (has_id p \<longrightarrow> map_of p ''id'' = Some (slug x))"

definition generated :: "(string \<times> string) list list \<Rightarrow> heading list \<Rightarrow> string list" where
  "generated ps hs = map (slug \<circ> snd) (filter (\<lambda>(p, x). \<not> has_id p) (zip ps hs))"

text \<open>
  What a stretch of the walk does to the slugger: the slugs it generates are distinct,
  are new keys, and are the keys it adds.
\<close>

definition fresh_run :: "slugger \<Rightarrow> slugger \<Rightarrow> (string \<times> string) list list \<Rightarrow> heading list \<Rightarrow> bool" where
  "fresh_run s s' ps new =
     (list_all2 keeps_id ps new \<and> distinct (generated ps new)
      \<and> (\<forall>k. has_key s' k = (has_key s k \<or> k \<in> set (generated ps new)))
      \<and> (\<forall>k\<in>set (generated ps new). \<not> has_key s k))"

text \<open>
  The rendered text of a node does not depend on the \<^verbatim>\<open>id\<close> properties of headings.
\<close>

definition ignores_ids :: "libs \<Rightarrow> bool" where
  "ignores_ids L = (\<forall>a b. only_ids a b \<longrightarrow> toText L a = toText L b)"

text \<open>
  External functions for the examples: the text of a node is the concatenation of its
  text nodes; the serialiser and the parser are stand-ins, and no property below
  depends on them.
\<close>

fun textContent :: "node \<Rightarrow> string" where
  "textContent (Element t p cs) = concat (map textContent cs)"
| "textContent (Text v) = v"
| "textContent n = []"

definition exampleLibs :: libs where
  "exampleLibs =
     \<lparr>toText = textContent,
      toHtml = (\<lambda>n. ''<'' @ (case n of Element t p cs \<Rightarrow> t | _ \<Rightarrow> []) @ ''>''),
      fromHtml = (\<lambda>s. [Element ''aside'' [] [Text s]])\<rparr>"

text \<open>
  A template that returns the empty string, \<^verbatim>\<open>() => ""\<close>, and external functions as
  above but for the parser, which returns no node for the empty string, as
  \<^verbatim>\<open>fromHtml("", { fragment: true }).children\<close> is empty.
\<close>

definition emptyTemplate :: "string \<Rightarrow> string" where
  "emptyTemplate html = []"

definition emptyParseLibs :: libs where
  "emptyParseLibs =
     \<lparr>toText = textContent,
      toHtml = (\<lambda>n. ''<'' @ (case n of Element t p cs \<Rightarrow> t | _ \<Rightarrow> []) @ ''>''),
      fromHtml = (\<lambda>s. if s = [] then [] else [Element ''aside'' [] [Text s]])\<rparr>"

text \<open>
  The nodes \<^verbatim>\<open>generateToc\<close> returns for a list without items: the parser applied to the
  template applied to the serialised empty list.
\<close>

definition wrapper_nodes :: "libs \<Rightarrow> options \<Rightarrow> node list" where
  "wrapper_nodes L opts =
     fromHtml L (template opts (toHtml L (Element (if ordered opts then ''ol'' else ''ul'') [] [])))"

text \<open>
  A node without marker comment; a list of children that is one marker comment; the
  document in which every marker comment, or the paragraph it is the only child of, is
  replaced by the nodes \<open>tocNodes\<close>.
\<close>

fun no_marker :: "node \<Rightarrow> bool" where
  "no_marker (Comment v) = (\<not> is_marker v)"
| "no_marker (Element t p cs) = list_all no_marker cs"
| "no_marker n = True"

fun sole_marker :: "node list \<Rightarrow> bool" where
  "sole_marker [Comment v] = is_marker v"
| "sole_marker cs = False"

fun replace_markers :: "node list \<Rightarrow> node \<Rightarrow> node list" where
  "replace_markers tocNodes (Comment v) = (if is_marker v then tocNodes else [Comment v])"
| "replace_markers tocNodes (Element t p cs) =
     (if t = ''p'' \<and> sole_marker cs then tocNodes
      else [Element t p (concat (map (replace_markers tocNodes) cs))])"
| "replace_markers tocNodes n = [n]"

text \<open>
  The walk returns \<open>r\<close>: it does so for every number of steps from some number on.
\<close>

definition walk_returns ::
  "node list \<Rightarrow> bool \<Rightarrow> nat \<Rightarrow> node list \<Rightarrow> bool \<times> bool \<Rightarrow> node list \<times> bool \<times> bool \<Rightarrow> bool" where
  "walk_returns tocNodes is_p offset kids flags r =
     (\<exists>f0. \<forall>f\<ge>f0. walk f tocNodes is_p offset kids flags = Some r)"

text \<open>
  The walk over the children of an element without marker changes nothing; the walk
  over the children of any other element replaces every marker below it.
\<close>

definition unchanged :: "node list \<Rightarrow> node \<Rightarrow> bool" where
  "unchanged tn c = (\<forall>t p cs inserted. c = Element t p cs \<longrightarrow>
      walk_returns tn (t = ''p'') 0 cs (False, inserted) (cs, False, inserted))"

definition replaced_in :: "node list \<Rightarrow> node \<Rightarrow> bool" where
  "replaced_in tn c = (\<forall>t p cs inserted. c = Element t p cs \<longrightarrow> \<not> (t = ''p'' \<and> sole_marker cs) \<longrightarrow>
      walk_returns tn (t = ''p'') 0 cs (False, inserted)
        (concat (map (replace_markers tn) cs), False, inserted \<or> \<not> list_all no_marker cs))"

section \<open>Properties of the builder\<close>

subsection \<open>References\<close>

lemma children_at_push_at:
  "is_list_at ref t \<Longrightarrow> children_at ref (push_at ref x t) = children_at ref t @ [x]"
  by (induction ref x t rule: push_at.induct) auto

lemma children_at_pushed:
  "is_list_at ref t \<Longrightarrow>
   children_at (ref @ [length (children_at ref t)]) (push_at ref x t) = children_of x"
  by (induction ref x t rule: push_at.induct) auto

subsection \<open>The stack\<close>

lemma pop_frames_eq:
  "pop_frames k (ps, cur) =
     (if k = 0 then Inr (ps, cur)
      else if k < length ps then Inr (take (length ps - k) ps, ps ! (length ps - k - 1))
      else Inl ParentNodeNotFound)"
proof (induction k arbitrary: ps cur)
  case 0
  show ?case by simp
next
  case (Suc k)
  show ?case
  proof (cases "butlast ps = []")
    case True
    then have "length ps \<le> 1" by (cases ps) (auto split: if_splits)
    with True show ?thesis by (simp add: Let_def)
  next
    case False
    then have l: "length ps \<ge> 2" by (cases ps) (auto split: if_splits simp: Suc_le_eq)
    show ?thesis
    proof (cases "k = 0")
      case True
      with False l show ?thesis
        by (simp add: Let_def butlast_conv_take last_conv_nth nth_butlast)
    next
      case k: False
      with False l Suc [of "butlast ps" "last (butlast ps)"] show ?thesis
        by (auto simp: Let_def butlast_conv_take min_def nth_butlast)
    qed
  qed
qed

lemma loop_body_skip: "\<not> eligible opts x \<Longrightarrow> loop_body opts st x = Inr st"
  by (simp add: loop_body_def eligible_def)

lemma for_headings_filter:
  "for_headings opts st hs = for_headings opts st (filter (eligible opts) hs)"
  by (induction hs arbitrary: st) (auto simp: loop_body_skip split: sum.splits)

lemma loop_body_eligible:
  assumes "eligible opts x"
  shows "loop_body opts st x =
     (if depth x = currentDepth st then
        Inr (st\<lparr>toc := push_at (currentParent st) (item (slug x) (htext x) []) (toc st)\<rparr>)
      else if depth x > currentDepth st then
        Inr (st\<lparr>toc := push_at (currentParent st)
                     (Element (if ordered opts then ''ol'' else ''ul'') []
                        [item (slug x) (htext x) []]) (toc st),
                currentParent :=
                  currentParent st @ [length (children_at (currentParent st) (toc st))],
                parents := parents st
                  @ [currentParent st @ [length (children_at (currentParent st) (toc st))]],
                currentDepth := depth x\<rparr>)
      else if currentDepth st - depth x < length (parents st) then
        Inr (st\<lparr>parents := take (length (parents st) - (currentDepth st - depth x)) (parents st),
                currentParent :=
                  parents st ! (length (parents st) - (currentDepth st - depth x) - 1),
                toc := push_at (parents st ! (length (parents st) - (currentDepth st - depth x) - 1))
                         (item (slug x) (htext x) []) (toc st),
                currentDepth := depth x\<rparr>)
      else Inl ParentNodeNotFound)"
  using assms
  by (simp add: loop_body_def eligible_def pop_frames_eq h_def item_def Let_def)

lemma for_headings_frames:
  "(\<exists>st'. for_headings opts st hs = Inr st') =
     frames_ok (currentDepth st) (length (parents st)) (map depth (filter (eligible opts) hs))"
proof (induction hs arbitrary: st)
  case Nil
  show ?case by simp
next
  case (Cons x hs)
  show ?case
  proof (cases "eligible opts x")
    case False
    then show ?thesis using Cons [of st] by (simp add: loop_body_skip)
  next
    case True
    then show ?thesis using Cons by (simp add: loop_body_eligible)
  qed
qed

lemma stepwise_frames_ok:
  "stepwise d0 cur ds \<Longrightarrow> d0 \<le> cur \<Longrightarrow> n = Suc (cur - d0) \<Longrightarrow> frames_ok cur n ds"
proof (induction ds arbitrary: cur n)
  case Nil
  show ?case by simp
next
  case (Cons d ds)
  from Cons.prems have d: "d0 \<le> d" "d \<le> Suc cur" and s: "stepwise d0 d ds"
    by simp_all
  have "frames_ok d (Suc (d - d0)) ds"
    using Cons.IH [OF s d(1)] by simp
  moreover have "d > cur \<Longrightarrow> Suc n = Suc (d - d0)"
    using d Cons.prems by simp
  moreover have "d < cur \<Longrightarrow> n - (cur - d) = Suc (d - d0) \<and> cur - d < n"
    using d Cons.prems by auto
  moreover have "d = cur \<Longrightarrow> n = Suc (d - d0)"
    using Cons.prems by simp
  ultimately show ?case by auto
qed

lemma outline_fails_iff:
  "(\<exists>e. outline opts (first # rest) = Inl e) =
     (\<not> frames_ok (depth first) 1 (map depth (filter (eligible opts) (first # rest))))"
proof -
  let ?run = "for_headings opts (initial_state opts first) (first # rest)"
  have "(\<exists>e. outline opts (first # rest) = Inl e) = (\<not> (\<exists>st'. ?run = Inr st'))"
    by (cases ?run) (simp_all add: outline_def)
  also have "\<dots> = (\<not> frames_ok (currentDepth (initial_state opts first))
      (length (parents (initial_state opts first)))
      (map depth (filter (eligible opts) (first # rest))))"
    by (simp only: for_headings_frames)
  finally show ?thesis by (simp add: initial_state_def)
qed

subsection \<open>A deeper heading\<close>

text \<open>
  C1. On a deeper transition the builder creates the nested list with the heading's item
  in it and appends the nested list to the children of the current list, after the last
  item appended there; the nested list becomes the current list and is pushed on the
  stack. For the headings (1, A), (2, B), (1, C) with \<^verbatim>\<open>maxDepth\<close> 3 the outline is a list
  of three children: the item A, the nested list holding the item B, and the item C.
\<close>

theorem deeper_appends_nested_list:
  "(eligible opts x \<and> currentDepth st < depth x \<and> is_list_at (currentParent st) (toc st) \<longrightarrow>
      (\<exists>st'. loop_body opts st x = Inr st'
         \<and> children_at (currentParent st) (toc st') =
             children_at (currentParent st) (toc st)
               @ [Element (if ordered opts then ''ol'' else ''ul'') [] [item (slug x) (htext x) []]]
         \<and> currentParent st' = currentParent st @ [length (children_at (currentParent st) (toc st))]
         \<and> children_at (currentParent st') (toc st') = [item (slug x) (htext x) []]
         \<and> parents st' = parents st @ [currentParent st']
         \<and> currentDepth st' = depth x))
   \<and> outline \<lparr>template = tpl, maxDepth = 3, ordered = False\<rparr>
        [\<lparr>depth = 1, slug = sa, htext = ta\<rparr>, \<lparr>depth = 2, slug = sb, htext = tb\<rparr>,
         \<lparr>depth = 1, slug = sc, htext = tc\<rparr>]
      = Inr (Some (Element ''ul'' []
          [item sa ta [], Element ''ul'' [] [item sb tb []], item sc tc []]))"
proof (intro conjI impI)
  assume a: "eligible opts x \<and> currentDepth st < depth x \<and> is_list_at (currentParent st) (toc st)"
  then have e: "eligible opts x" and d: "currentDepth st < depth x"
    and r: "is_list_at (currentParent st) (toc st)"
    by simp_all
  from d show "\<exists>st'. loop_body opts st x = Inr st'
         \<and> children_at (currentParent st) (toc st') =
             children_at (currentParent st) (toc st)
               @ [Element (if ordered opts then ''ol'' else ''ul'') [] [item (slug x) (htext x) []]]
         \<and> currentParent st' = currentParent st @ [length (children_at (currentParent st) (toc st))]
         \<and> children_at (currentParent st') (toc st') = [item (slug x) (htext x) []]
         \<and> parents st' = parents st @ [currentParent st']
         \<and> currentDepth st' = depth x"
    by (simp add: loop_body_eligible [OF e] children_at_push_at [OF r] children_at_pushed [OF r])
next
  show "outline \<lparr>template = tpl, maxDepth = 3, ordered = False\<rparr>
        [\<lparr>depth = 1, slug = sa, htext = ta\<rparr>, \<lparr>depth = 2, slug = sb, htext = tb\<rparr>,
         \<lparr>depth = 1, slug = sc, htext = tc\<rparr>]
      = Inr (Some (Element ''ul'' []
          [item sa ta [], Element ''ul'' [] [item sb tb []], item sc tc []]))"
    by (simp add: outline_def initial_state_def loop_body_def h_def item_def Let_def)
qed

theorem deeper_appends_nested_list_witness:
  "eligible DEFAULT_OPTIONS \<lparr>depth = 2, slug = ''b'', htext = ''B''\<rparr>
   \<and> currentDepth \<lparr>toc = Element ''ul'' [] [item ''a'' ''A'' []], currentDepth = 1,
        currentParent = [], parents = [[]]\<rparr> < depth \<lparr>depth = 2, slug = ''b'', htext = ''B''\<rparr>
   \<and> is_list_at [] (Element ''ul'' [] [item ''a'' ''A'' []])
   \<and> (\<exists>st'. loop_body DEFAULT_OPTIONS
          \<lparr>toc = Element ''ul'' [] [item ''a'' ''A'' []], currentDepth = 1,
           currentParent = [], parents = [[]]\<rparr> \<lparr>depth = 2, slug = ''b'', htext = ''B''\<rparr> = Inr st'
        \<and> children_at [] (toc st') =
            [item ''a'' ''A'' [], Element ''ul'' [] [item ''b'' ''B'' []]]
        \<and> currentParent st' = [1]
        \<and> children_at (currentParent st') (toc st') = [item ''b'' ''B'' []])"
proof -
  let ?x = "\<lparr>depth = 2, slug = ''b'', htext = ''B''\<rparr>"
  let ?st = "\<lparr>toc = Element ''ul'' [] [item ''a'' ''A'' []], currentDepth = 1,
    currentParent = [], parents = [[]]\<rparr>"
  have p: "eligible DEFAULT_OPTIONS ?x \<and> currentDepth ?st < depth ?x
      \<and> is_list_at (currentParent ?st) (toc ?st)"
    by (simp add: eligible_def DEFAULT_OPTIONS_def)
  note t = deeper_appends_nested_list [of DEFAULT_OPTIONS ?x ?st, THEN conjunct1, THEN mp, OF p]
  from p t show ?thesis
    by (auto simp: DEFAULT_OPTIONS_def)
qed

text \<open>
  The item A holds its link only: the nested list is its sibling, not its child.
\<close>

theorem nested_list_in_item_counterexample:
  "outline DEFAULT_OPTIONS
     [\<lparr>depth = 1, slug = ''a'', htext = ''A''\<rparr>, \<lparr>depth = 2, slug = ''b'', htext = ''B''\<rparr>,
      \<lparr>depth = 1, slug = ''c'', htext = ''C''\<rparr>]
   = Inr (Some (Element ''ul'' []
       [item ''a'' ''A'' [], Element ''ul'' [] [item ''b'' ''B'' []], item ''c'' ''C'' []]))
   \<and> outline DEFAULT_OPTIONS
     [\<lparr>depth = 1, slug = ''a'', htext = ''A''\<rparr>, \<lparr>depth = 2, slug = ''b'', htext = ''B''\<rparr>,
      \<lparr>depth = 1, slug = ''c'', htext = ''C''\<rparr>]
   \<noteq> Inr (Some (Element ''ul'' []
       [item ''a'' ''A'' [Element ''ul'' [] [item ''b'' ''B'' []]], item ''c'' ''C'' []]))"
  by (simp add: outline_def initial_state_def loop_body_def h_def item_def Let_def
      DEFAULT_OPTIONS_def)

subsection \<open>A first heading that is not of depth 1\<close>

text \<open>
  C2. For the headings (2, X), (1, Y) with \<^verbatim>\<open>maxDepth\<close> 3, the first heading opens the
  root list at depth 2 and is appended to it without error: after it the state holds the
  root list with the item X, the current depth 2 and the root as the only frame. The
  shallower transition for Y then pops that frame, finds the stack empty and throws.
\<close>

theorem first_heading_depth_two_raises:
  "for_headings \<lparr>template = tpl, maxDepth = 3, ordered = ord\<rparr>
      (initial_state \<lparr>template = tpl, maxDepth = 3, ordered = ord\<rparr>
         \<lparr>depth = 2, slug = sx, htext = tx\<rparr>)
      [\<lparr>depth = 2, slug = sx, htext = tx\<rparr>]
    = Inr \<lparr>toc = Element (if ord then ''ol'' else ''ul'') [] [item sx tx []],
           currentDepth = 2, currentParent = [], parents = [[]]\<rparr>
   \<and> outline \<lparr>template = tpl, maxDepth = 3, ordered = ord\<rparr>
        [\<lparr>depth = 2, slug = sx, htext = tx\<rparr>, \<lparr>depth = 1, slug = sy, htext = ty\<rparr>]
      = Inl ParentNodeNotFound"
  by (simp add: outline_def initial_state_def loop_body_def h_def item_def Let_def)

theorem first_heading_depth_two_counterexample:
  "\<not> (\<exists>t. outline DEFAULT_OPTIONS
       [\<lparr>depth = 2, slug = ''x'', htext = ''X''\<rparr>, \<lparr>depth = 1, slug = ''y'', htext = ''Y''\<rparr>]
     = Inr t)"
  by (simp add: outline_def initial_state_def loop_body_def h_def Let_def DEFAULT_OPTIONS_def)

subsection \<open>Headings deeper than maxDepth\<close>

text \<open>
  C3. A heading deeper than \<^verbatim>\<open>maxDepth\<close> is skipped by the loop, yet the current depth
  starts at \<^verbatim>\<open>headings[0].depth\<close>, the depth of the first heading whether it is eligible
  or not. With \<^verbatim>\<open>maxDepth\<close> 3, the headings (4, D), (1, A) make the builder throw, while
  the heading (1, A) alone gives the list with the item A.
\<close>

theorem over_depth_first_heading_raises:
  "outline DEFAULT_OPTIONS
     [\<lparr>depth = 4, slug = ''d'', htext = ''D''\<rparr>, \<lparr>depth = 1, slug = ''a'', htext = ''A''\<rparr>]
   = Inl ParentNodeNotFound
   \<and> outline DEFAULT_OPTIONS [\<lparr>depth = 1, slug = ''a'', htext = ''A''\<rparr>]
   = Inr (Some (Element ''ul'' [] [item ''a'' ''A'' []]))"
  by (simp add: outline_def initial_state_def loop_body_def h_def item_def Let_def
      DEFAULT_OPTIONS_def pop_frames_eq)

subsection \<open>When the builder throws\<close>

text \<open>
  C4. The builder's only failure is the error thrown in the shallower branch. No heading
  gives no failure. With headings, the builder throws exactly when some shallower
  transition asks for at least as many pops as there are frames on the stack, so that
  the root frame is popped too: a deeper transition pushes one frame whatever the gap of
  depths, a shallower one pops one frame for each level of difference. The build returns
  normally whenever the first heading is eligible, no eligible heading is shallower than
  it, and every eligible heading is at most one level deeper than the eligible heading
  before it.
\<close>

theorem throws_iff_frames_exhausted:
  "outline opts [] = Inr None
   \<and> (\<forall>e. outline opts headings = Inl e \<longrightarrow> e = ParentNodeNotFound)
   \<and> ((\<exists>e. outline opts (first # rest) = Inl e) =
        (\<not> frames_ok (depth first) 1 (map depth (filter (eligible opts) (first # rest)))))
   \<and> (eligible opts first
        \<and> stepwise (depth first) (depth first) (map depth (filter (eligible opts) rest))
      \<longrightarrow> (\<exists>t. outline opts (first # rest) = Inr (Some t)))"
proof (intro conjI allI impI)
  show "outline opts [] = Inr None"
    by (simp add: outline_def)
next
  fix e
  show "e = ParentNodeNotFound"
    by (cases e) simp
next
  show "(\<exists>e. outline opts (first # rest) = Inl e) =
        (\<not> frames_ok (depth first) 1 (map depth (filter (eligible opts) (first # rest))))"
    by (rule outline_fails_iff)
next
  assume a: "eligible opts first
    \<and> stepwise (depth first) (depth first) (map depth (filter (eligible opts) rest))"
  then have "frames_ok (depth first) 1 (map depth (filter (eligible opts) rest))"
    by (auto intro: stepwise_frames_ok)
  with a have "frames_ok (depth first) 1 (map depth (filter (eligible opts) (first # rest)))"
    by simp
  then have "\<not> (\<exists>e. outline opts (first # rest) = Inl e)"
    by (simp add: outline_fails_iff)
  then show "\<exists>t. outline opts (first # rest) = Inr (Some t)"
    by (cases "for_headings opts (initial_state opts first) (first # rest)")
       (simp_all add: outline_def)
qed

theorem throws_iff_frames_exhausted_witness:
  "eligible DEFAULT_OPTIONS \<lparr>depth = 1, slug = ''a'', htext = ''A''\<rparr>
   \<and> stepwise 1 1 (map depth (filter (eligible DEFAULT_OPTIONS)
        [\<lparr>depth = 2, slug = ''b'', htext = ''B''\<rparr>, \<lparr>depth = 4, slug = ''c'', htext = ''C''\<rparr>,
         \<lparr>depth = 3, slug = ''d'', htext = ''D''\<rparr>, \<lparr>depth = 1, slug = ''e'', htext = ''E''\<rparr>]))
   \<and> (\<exists>t. outline DEFAULT_OPTIONS
        [\<lparr>depth = 1, slug = ''a'', htext = ''A''\<rparr>,
         \<lparr>depth = 2, slug = ''b'', htext = ''B''\<rparr>, \<lparr>depth = 4, slug = ''c'', htext = ''C''\<rparr>,
         \<lparr>depth = 3, slug = ''d'', htext = ''D''\<rparr>, \<lparr>depth = 1, slug = ''e'', htext = ''E''\<rparr>]
        = Inr (Some t))
   \<and> outline DEFAULT_OPTIONS
        [\<lparr>depth = 1, slug = ''a'', htext = ''A''\<rparr>, \<lparr>depth = 3, slug = ''b'', htext = ''B''\<rparr>,
         \<lparr>depth = 2, slug = ''c'', htext = ''C''\<rparr>, \<lparr>depth = 1, slug = ''d'', htext = ''D''\<rparr>]
       = Inl ParentNodeNotFound"
proof -
  let ?first = "\<lparr>depth = 1, slug = ''a'', htext = ''A''\<rparr>"
  let ?rest = "[\<lparr>depth = 2, slug = ''b'', htext = ''B''\<rparr>, \<lparr>depth = 4, slug = ''c'', htext = ''C''\<rparr>,
         \<lparr>depth = 3, slug = ''d'', htext = ''D''\<rparr>, \<lparr>depth = 1, slug = ''e'', htext = ''E''\<rparr>]"
  let ?bad = "[\<lparr>depth = 3, slug = ''b'', htext = ''B''\<rparr>,
         \<lparr>depth = 2, slug = ''c'', htext = ''C''\<rparr>, \<lparr>depth = 1, slug = ''d'', htext = ''D''\<rparr>]"
  have p: "eligible DEFAULT_OPTIONS ?first
      \<and> stepwise (depth ?first) (depth ?first) (map depth (filter (eligible DEFAULT_OPTIONS) ?rest))"
    by (simp add: eligible_def DEFAULT_OPTIONS_def)
  note t = throws_iff_frames_exhausted [of DEFAULT_OPTIONS _ ?first ?rest]
  note ok = t [THEN conjunct2, THEN conjunct2, THEN conjunct2, THEN mp, OF p]
  note u = throws_iff_frames_exhausted [of DEFAULT_OPTIONS "?first # ?bad" ?first ?bad]
  have "\<not> frames_ok (depth ?first) 1
      (map depth (filter (eligible DEFAULT_OPTIONS) (?first # ?bad)))"
    by (simp add: eligible_def DEFAULT_OPTIONS_def)
  with u have "\<exists>e. outline DEFAULT_OPTIONS (?first # ?bad) = Inl e"
    by blast
  then obtain e where e: "outline DEFAULT_OPTIONS (?first # ?bad) = Inl e" ..
  with u have "e = ParentNodeNotFound"
    by blast
  with e p ok show ?thesis
    by simp
qed

text \<open>
  With \<^verbatim>\<open>maxDepth\<close> 4 the depths 1, 4, 2 throw: the deeper heading opened one frame, the
  shallower one asks for two pops.
\<close>

theorem gap_then_partial_decrease_counterexample:
  "outline (DEFAULT_OPTIONS\<lparr>maxDepth := 4\<rparr>)
     [\<lparr>depth = 1, slug = ''a'', htext = ''A''\<rparr>, \<lparr>depth = 4, slug = ''b'', htext = ''B''\<rparr>,
      \<lparr>depth = 2, slug = ''c'', htext = ''C''\<rparr>]
   = Inl ParentNodeNotFound"
  by (simp add: outline_def initial_state_def loop_body_def h_def Let_def DEFAULT_OPTIONS_def
      pop_frames_eq)

subsection \<open>Depths are recovered from the outline\<close>

text \<open>
  C7. For headings of depths 1, 2, 3, 2, 1 and \<^verbatim>\<open>maxDepth\<close> 3 the builder returns an
  outline, and the nesting levels of its items, read in document order, are 1, 2, 3, 2, 1
  again.
\<close>

theorem depths_round_trip:
  "\<exists>t. outline \<lparr>template = tpl, maxDepth = 3, ordered = ord\<rparr>
          [\<lparr>depth = 1, slug = s1, htext = t1\<rparr>, \<lparr>depth = 2, slug = s2, htext = t2\<rparr>,
           \<lparr>depth = 3, slug = s3, htext = t3\<rparr>, \<lparr>depth = 2, slug = s4, htext = t4\<rparr>,
           \<lparr>depth = 1, slug = s5, htext = t5\<rparr>] = Inr (Some t)
        \<and> item_levels 0 t = [1, 2, 3, 2, 1]"
  by (cases ord) (simp_all add: outline_def initial_state_def loop_body_def h_def Let_def)

section \<open>Properties of the slugger\<close>

lemma slug_loop_free: "\<not> has_key occ (numbered original (slug_loop occ original n))"
proof (induction occ original n rule: slug_loop.induct)
  case (1 occ original n)
  then show ?case by (subst slug_loop.simps) simp
qed

lemma has_key_map_of: "has_key occ k = (map_of occ k \<noteq> None)"
  by (auto simp: has_key_def map_of_eq_None_iff)

lemma has_key_update: "has_key (AList.update k v occ) k' = (has_key occ k' \<or> k' = k)"
  by (auto simp: has_key_map_of update_conv')

lemma numbered_not_empty: "numbered original n \<noteq> []"
  by (simp add: numbered_def)

lemma slugger_slug_keys:
  assumes "slugger_slug s v = (r, s')"
  shows "has_key s' k = (has_key s k \<or> k = r)" and "\<not> has_key s r"
proof -
  show "has_key s' k = (has_key s k \<or> k = r)"
  proof (cases "map_of s (slug_base v)")
    case None
    with assms show ?thesis
      by (auto simp: slugger_slug_def Let_def has_key_update)
  next
    case (Some n)
    then have "has_key s (slug_base v)"
      by (simp add: has_key_map_of)
    with Some assms show ?thesis
      by (auto simp: slugger_slug_def Let_def has_key_update)
  qed
  show "\<not> has_key s r"
  proof (cases "map_of s (slug_base v)")
    case None
    with assms show ?thesis
      by (auto simp: slugger_slug_def Let_def has_key_map_of)
  next
    case (Some n)
    with assms show ?thesis
      by (auto simp: slugger_slug_def Let_def slug_loop_free)
  qed
qed

lemma slugger_slug_empty:
  assumes "slugger_slug s v = ([], s')"
  shows "slugger_slug [] v = ([], [([], 0)])"
  using assms
  by (auto simp: slugger_slug_def Let_def numbered_not_empty split: option.splits)

section \<open>Properties of the collection\<close>

lemma map_of_update_id: "map_of (AList.update k v p) k = Some v"
  by (simp add: update_conv')

lemma visit_only_ids:
  "visit L n st = (n', st') \<Longrightarrow> only_ids n n'"
  "visit_children L ns st = (ns', st') \<Longrightarrow> list_all2 only_ids ns ns'"
proof (induction L n st and L ns st arbitrary: n' st' and ns' st' rule: visit_visit_children.induct)
  case (1 L tagName props kids slugger headings)
  show ?case
  proof (cases "tagName \<in> set heading_tags")
    case True
    obtain sl sg where r: "resolve_slug props slugger (trim (toText L (Element tagName props kids))) = (sl, sg)"
      by (cases "resolve_slug props slugger (trim (toText L (Element tagName props kids)))")
    obtain kids' st2 where k: "visit_children L kids (sg, headings @ [\<lparr>depth = parseInt (drop 1 tagName), slug = sl, htext = trim (toText L (Element tagName props kids))\<rparr>]) = (kids', st2)"
      by (cases "visit_children L kids (sg, headings @ [\<lparr>depth = parseInt (drop 1 tagName), slug = sl, htext = trim (toText L (Element tagName props kids))\<rparr>])")
    from "1.IH"(1) [OF True refl r [symmetric] refl refl refl k] have "list_all2 only_ids kids kids'" .
    with "1.prems" True r k show ?thesis
      by (auto simp: Let_def map_of_update_id)
  next
    case False
    obtain kids' st2 where k: "visit_children L kids (slugger, headings) = (kids', st2)"
      by (cases "visit_children L kids (slugger, headings)")
    from "1.IH"(2) [OF False k] have "list_all2 only_ids kids kids'" .
    with "1.prems" False k show ?thesis by (auto simp: Let_def)
  qed
next
  case (6 L n ns st)
  obtain n1 st1 where a: "visit L n st = (n1, st1)" by (cases "visit L n st")
  obtain ns1 st2 where b: "visit_children L ns st1 = (ns1, st2)" by (cases "visit_children L ns st1")
  from "6.IH"(1) [OF a] have "only_ids n n1" .
  moreover from "6.IH"(2) [OF a [symmetric] refl b] have "list_all2 only_ids ns ns1" .
  ultimately show ?case using "6.prems" a b by (auto simp: Let_def)
qed auto

lemma visit_appends:
  "visit L n st = (n', s', hs') \<Longrightarrow> \<exists>new. hs' = snd st @ new"
  "visit_children L ns st = (ns', s', hs') \<Longrightarrow> \<exists>new. hs' = snd st @ new"
proof (induction L n st and L ns st arbitrary: n' s' hs' and ns' s' hs' rule: visit_visit_children.induct)
  case (1 L tagName props kids slugger headings)
  show ?case
  proof (cases "tagName \<in> set heading_tags")
    case True
    let ?txt = "trim (toText L (Element tagName props kids))"
    obtain sl sg where r: "resolve_slug props slugger ?txt = (sl, sg)"
      by (cases "resolve_slug props slugger ?txt")
    let ?h = "\<lparr>depth = parseInt (drop 1 tagName), slug = sl, htext = ?txt\<rparr>"
    obtain kids' s2 hs2 where k: "visit_children L kids (sg, headings @ [?h]) = (kids', s2, hs2)"
      by (cases "visit_children L kids (sg, headings @ [?h])")
    from "1.IH"(1) [OF True refl r [symmetric] refl refl refl k]
    obtain new where "hs2 = (headings @ [?h]) @ new" by auto
    with "1.prems" True r k show ?thesis
      by (auto simp: Let_def)
  next
    case False
    obtain kids' s2 hs2 where k: "visit_children L kids (slugger, headings) = (kids', s2, hs2)"
      by (cases "visit_children L kids (slugger, headings)")
    from "1.IH"(2) [OF False k] obtain new where "hs2 = headings @ new" by auto
    with "1.prems" False k show ?thesis by (auto simp: Let_def)
  qed
next
  case (6 L n ns st)
  obtain n1 s1 hs1 where a: "visit L n st = (n1, s1, hs1)" by (cases "visit L n st")
  obtain ns1 s2 hs2 where b: "visit_children L ns (s1, hs1) = (ns1, s2, hs2)"
    by (cases "visit_children L ns (s1, hs1)")
  from "6.IH"(1) [OF a] obtain new1 where n1: "hs1 = snd st @ new1" by auto
  from "6.IH"(2) [OF a [symmetric] refl b] obtain new2 where "hs2 = hs1 @ new2" by auto
  with n1 "6.prems" a b show ?case by (auto simp: Let_def)
qed auto

lemma generateToc_eq:
  "generateToc L opts tree =
     (fst (visit_children L tree (slugger_new, [])),
      case outline opts (collectHeadings L tree) of
         Inl e \<Rightarrow> Inl e
       | Inr None \<Rightarrow> Inr []
       | Inr (Some toc') \<Rightarrow> Inr (fromHtml L (template opts (toHtml L toc'))))"
  by (simp add: generateToc_def collectHeadings_def split: prod.splits)

lemma resolve_slug_rerun:
  assumes "resolve_slug props s txt = (sl, sg)" and "has_key s [] \<or> t = []"
  shows "\<exists>t2. resolve_slug (AList.update ''id'' sl props) t txt = (sl, t2)
           \<and> (has_key sg [] \<or> t2 = [])"
proof (cases "sl = []")
  case False
  have "has_key s [] \<Longrightarrow> has_key sg []"
    using assms(1)
    by (auto simp: resolve_slug_def slugger_slug_keys(1) split: option.splits if_splits)
  with False assms(2) show ?thesis
    by (auto simp: resolve_slug_def map_of_update_id)
next
  case True
  with assms(1) have g: "slugger_slug s txt = ([], sg)"
    by (auto simp: resolve_slug_def split: option.splits if_splits)
  then have "\<not> has_key s []" and k: "has_key sg []"
    by (simp_all add: slugger_slug_keys)
  with assms(2) have "t = []" by simp
  with True k slugger_slug_empty [OF g] show ?thesis
    by (simp add: resolve_slug_def map_of_update_id)
qed

lemma visit_rerun:
  "visit L n st = (n', s', snd st @ new) \<Longrightarrow> \<forall>a b. only_ids a b \<longrightarrow> toText L a = toText L b \<Longrightarrow>
   has_key (fst st) [] \<or> t = [] \<Longrightarrow>
   \<exists>t'. visit L n' (t, hs2) = (n', t', hs2 @ new) \<and> (has_key s' [] \<or> t' = [])"
  "visit_children L ns st = (ns', s', snd st @ new) \<Longrightarrow> \<forall>a b. only_ids a b \<longrightarrow> toText L a = toText L b \<Longrightarrow>
   has_key (fst st) [] \<or> t = [] \<Longrightarrow>
   \<exists>t'. visit_children L ns' (t, hs2) = (ns', t', hs2 @ new) \<and> (has_key s' [] \<or> t' = [])"
proof (induction L n st and L ns st arbitrary: n' s' new t hs2 and ns' s' new t hs2
    rule: visit_visit_children.induct)
  case (1 L tagName props kids slugger headings)
  note inv = "1.prems"(2)
  have oi: "only_ids (Element tagName props kids) n'"
    using "1.prems"(1) by (rule visit_only_ids(1))
  show ?case
  proof (cases "tagName \<in> set heading_tags")
    case True
    let ?txt = "trim (toText L (Element tagName props kids))"
    obtain sl sg where r: "resolve_slug props slugger ?txt = (sl, sg)"
      by (cases "resolve_slug props slugger ?txt")
    let ?h = "\<lparr>depth = parseInt (drop 1 tagName), slug = sl, htext = ?txt\<rparr>"
    obtain kids' s2 hs' where k: "visit_children L kids (sg, headings @ [?h]) = (kids', s2, hs')"
      by (cases "visit_children L kids (sg, headings @ [?h])")
    from visit_appends(2) [OF k] obtain new' where hs': "hs' = (headings @ [?h]) @ new'"
      by auto
    from "1.prems"(1) True r k hs' have n': "n' = Element tagName (AList.update ''id'' sl props) kids'"
      and s': "s' = s2" and new: "new = ?h # new'"
      by (auto simp: Let_def)
    from "1.prems"(3) have "has_key slugger [] \<or> t = []" by simp
    from resolve_slug_rerun [OF r this] obtain t2
      where r2: "resolve_slug (AList.update ''id'' sl props) t ?txt = (sl, t2)"
        and rel2: "has_key sg [] \<or> t2 = []"
      by auto
    from rel2 have rel2': "has_key (fst (sg, headings @ [?h])) [] \<or> t2 = []" by simp
    from k hs' have k': "visit_children L kids (sg, headings @ [?h]) = (kids', s2, snd (sg, headings @ [?h]) @ new')"
      by simp
    from "1.IH"(1) [OF True refl r [symmetric] refl refl refl k' inv rel2', of "hs2 @ [?h]"]
    obtain t' where k2: "visit_children L kids' (t2, hs2 @ [?h]) = (kids', t', (hs2 @ [?h]) @ new')"
      and rel': "has_key s2 [] \<or> t' = []"
      by auto
    from oi have oi': "only_ids (Element tagName props kids)
        (Element tagName (AList.update ''id'' sl props) kids')"
      unfolding n' .
    have tt: "toText L (Element tagName (AList.update ''id'' sl props) kids')
        = toText L (Element tagName props kids)"
      using inv [rule_format, OF oi'] by (rule sym)
    from True r2 k2 tt rel' show ?thesis
      unfolding n' s' new
      by (simp add: Let_def)
  next
    case False
    obtain kids' s2 hs' where k: "visit_children L kids (slugger, headings) = (kids', s2, hs')"
      by (cases "visit_children L kids (slugger, headings)")
    from "1.prems"(1) False k have n': "n' = Element tagName props kids'"
      and s': "s' = s2" and hs': "hs' = headings @ new"
      by (auto simp: Let_def)
    from k hs' have k': "visit_children L kids (slugger, headings) = (kids', s2, snd (slugger, headings) @ new)"
      by simp
    from "1.IH"(2) [OF False k' inv "1.prems"(3), of hs2]
    obtain t' where "visit_children L kids' (t, hs2) = (kids', t', hs2 @ new)"
      and "has_key s2 [] \<or> t' = []"
      by auto
    with False show ?thesis
      unfolding n' s' by (simp add: Let_def)
  qed
next
  case (6 L n ns st)
  note inv = "6.prems"(2)
  obtain n1 s1 hs1 where a: "visit L n st = (n1, s1, hs1)" by (cases "visit L n st")
  obtain ns1 s2 hs' where b: "visit_children L ns (s1, hs1) = (ns1, s2, hs')"
    by (cases "visit_children L ns (s1, hs1)")
  from visit_appends(1) [OF a] obtain new1 where n1: "hs1 = snd st @ new1" by auto
  from visit_appends(2) [OF b] obtain new2 where n2: "hs' = hs1 @ new2" by auto
  from "6.prems"(1) a b n1 n2 have ns': "ns' = n1 # ns1" and s': "s' = s2" and new: "new = new1 @ new2"
    by (auto simp: Let_def)
  from a n1 have a': "visit L n st = (n1, s1, snd st @ new1)" by simp
  from "6.IH"(1) [OF a' inv "6.prems"(3), of hs2]
  obtain t1 where a2: "visit L n1 (t, hs2) = (n1, t1, hs2 @ new1)" and rel1: "has_key s1 [] \<or> t1 = []"
    by auto
  from b n2 have b': "visit_children L ns (s1, hs1) = (ns1, s2, snd (s1, hs1) @ new2)" by simp
  from rel1 have rel1': "has_key (fst (s1, hs1)) [] \<or> t1 = []" by simp
  from "6.IH"(2) [OF a [symmetric] refl b' inv rel1', of "hs2 @ new1"]
  obtain t2 where b2: "visit_children L ns1 (t1, hs2 @ new1) = (ns1, t2, (hs2 @ new1) @ new2)"
    and rel2: "has_key s2 [] \<or> t2 = []"
    by auto
  from a2 b2 rel2 show ?case
    unfolding ns' s' new by (simp add: Let_def)
qed auto

lemma generated_append:
  "length ps = length hs \<Longrightarrow> generated (ps @ ps') (hs @ hs') = generated ps hs @ generated ps' hs'"
  by (simp add: generated_def)

lemma generated_Cons:
  "generated (p # ps) (x # hs) = (if has_id p then [] else [slug x]) @ generated ps hs"
  by (simp add: generated_def)

lemma resolve_slug_cases:
  assumes "resolve_slug props s txt = (sl, sg)"
  shows "has_id props \<Longrightarrow> map_of props ''id'' = Some sl \<and> sg = s"
    and "\<not> has_id props \<Longrightarrow> \<not> has_key s sl \<and> (\<forall>k. has_key sg k = (has_key s k \<or> k = sl))"
  using assms
  by (auto simp: resolve_slug_def has_id_def slugger_slug_keys split: option.splits if_splits)

lemma fresh_run_Nil: "fresh_run s s [] []"
  by (simp add: fresh_run_def generated_def)

lemma fresh_run_append:
  assumes "fresh_run s s1 ps1 new1" and "fresh_run s1 s2 ps2 new2"
  shows "fresh_run s s2 (ps1 @ ps2) (new1 @ new2)"
proof -
  from assms(1) have l: "length ps1 = length new1"
    by (auto simp: fresh_run_def dest: list_all2_lengthD)
  from assms show ?thesis
    unfolding fresh_run_def generated_append [OF l]
    by (auto intro: list_all2_appendI)
qed

lemma fresh_run_heading:
  assumes "resolve_slug props s txt = (sl, sg)" and "slug x = sl"
  shows "fresh_run s sg [props] [x]"
proof (cases "has_id props")
  case True
  with resolve_slug_cases(1) [OF assms(1)] assms(2) show ?thesis
    by (simp add: fresh_run_def generated_Cons keeps_id_def generated_def)
next
  case False
  with resolve_slug_cases(2) [OF assms(1)] assms(2) show ?thesis
    by (simp add: fresh_run_def generated_Cons keeps_id_def generated_def)
qed

lemma visit_fresh:
  "visit L n st = (n', s', hs') \<Longrightarrow>
     \<exists>new. hs' = snd st @ new \<and> fresh_run (fst st) s' (heading_props n) new
       \<and> written_ids n' = map (Some \<circ> slug) new"
  "visit_children L ns st = (ns', s', hs') \<Longrightarrow>
     \<exists>new. hs' = snd st @ new \<and> fresh_run (fst st) s' (concat (map heading_props ns)) new
       \<and> concat (map written_ids ns') = map (Some \<circ> slug) new"
proof (induction L n st and L ns st arbitrary: n' s' hs' and ns' s' hs' rule: visit_visit_children.induct)
  case (1 L tagName props kids slugger headings)
  show ?case
  proof (cases "tagName \<in> set heading_tags")
    case True
    let ?txt = "trim (toText L (Element tagName props kids))"
    obtain sl sg where r: "resolve_slug props slugger ?txt = (sl, sg)"
      by (cases "resolve_slug props slugger ?txt")
    let ?h = "\<lparr>depth = parseInt (drop 1 tagName), slug = sl, htext = ?txt\<rparr>"
    obtain kids' s2 hs2 where k: "visit_children L kids (sg, headings @ [?h]) = (kids', s2, hs2)"
      by (cases "visit_children L kids (sg, headings @ [?h])")
    from "1.IH"(1) [OF True refl r [symmetric] refl refl refl k]
    obtain new where new: "hs2 = (headings @ [?h]) @ new"
      and f: "fresh_run sg s2 (concat (map heading_props kids)) new"
      and w: "concat (map written_ids kids') = map (Some \<circ> slug) new"
      by auto
    have "fresh_run slugger sg [props] [?h]"
      by (rule fresh_run_heading [OF r]) simp
    from fresh_run_append [OF this f]
    have "fresh_run slugger s2 (props # concat (map heading_props kids)) (?h # new)"
      by simp
    with "1.prems" True r k new w show ?thesis
      by (auto simp: Let_def map_of_update_id)
  next
    case False
    obtain kids' s2 hs2 where k: "visit_children L kids (slugger, headings) = (kids', s2, hs2)"
      by (cases "visit_children L kids (slugger, headings)")
    from "1.IH"(2) [OF False k] "1.prems" False k show ?thesis
      by (auto simp: Let_def)
  qed
next
  case (6 L n ns st)
  obtain n1 s1 hs1 where a: "visit L n st = (n1, s1, hs1)" by (cases "visit L n st")
  obtain ns1 s2 hs2 where b: "visit_children L ns (s1, hs1) = (ns1, s2, hs2)"
    by (cases "visit_children L ns (s1, hs1)")
  from "6.IH"(1) [OF a] obtain new1 where n1: "hs1 = snd st @ new1"
    and f1: "fresh_run (fst st) s1 (heading_props n) new1"
    and w1: "written_ids n1 = map (Some \<circ> slug) new1"
    by auto
  from "6.IH"(2) [OF a [symmetric] refl b] obtain new2 where n2: "hs2 = hs1 @ new2"
    and f2: "fresh_run s1 s2 (concat (map heading_props ns)) new2"
    and w2: "concat (map written_ids ns1) = map (Some \<circ> slug) new2"
    by auto
  from fresh_run_append [OF f1 f2] n1 n2 w1 w2 "6.prems" a b show ?case
    by (auto simp: Let_def)
qed (auto simp: fresh_run_Nil)

lemma textContent_only_ids: "only_ids a b \<Longrightarrow> textContent a = textContent b"
proof (induction a b rule: only_ids.induct)
  case (1 t p cs t' p' cs')
  then have "list_all2 (\<lambda>x y. textContent x = textContent y) cs cs'"
    by (auto simp: list_all2_conv_all_nth in_set_zip intro: list_all2_all_nthI)
  then have "map textContent cs = map textContent cs'"
    by (induction cs cs' rule: list_all2_induct) auto
  then show ?case by simp
qed auto

lemma ignores_ids_exampleLibs: "ignores_ids exampleLibs"
  by (simp add: ignores_ids_def exampleLibs_def textContent_only_ids)

subsection \<open>What the collection changes in the tree\<close>

text \<open>
  C9. Whatever the options and whether the builder throws or not, the tree that
  \<^verbatim>\<open>generateToc\<close> leaves behind differs from the tree it was given in the \<^verbatim>\<open>id\<close>
  properties of heading elements at most: every element \<^verbatim>\<open>h1\<close> to \<^verbatim>\<open>h6\<close> has an
  \<^verbatim>\<open>id\<close> afterwards, also one deeper than \<^verbatim>\<open>maxDepth\<close>, every other property and node
  is as before, and the identifiers written are the slugs of the collected headings in
  document order.
\<close>

theorem only_heading_ids_written:
  assumes "generateToc L opts tree = (tree', r)"
  shows "list_all2 only_ids tree tree'
    \<and> concat (map written_ids tree') = map (Some \<circ> slug) (collectHeadings L tree)"
proof -
  obtain s hs where v: "visit_children L tree (slugger_new, []) = (tree', s, hs)"
    using assms by (cases "visit_children L tree (slugger_new, [])") (auto simp: generateToc_eq)
  from visit_only_ids(2) [OF v] have "list_all2 only_ids tree tree'" .
  moreover from visit_fresh(2) [OF v] v
  have "concat (map written_ids tree') = map (Some \<circ> slug) (collectHeadings L tree)"
    by (auto simp: collectHeadings_def)
  ultimately show ?thesis by simp
qed

theorem only_heading_ids_written_witness:
  "fst (generateToc exampleLibs DEFAULT_OPTIONS
      [Element ''div'' [(''class'', ''x'')]
         [Element ''h1'' [(''class'', ''t'')] [Text ''Intro''], Comment ''c''],
       Element ''h5'' [] [Text ''Deep''], Text ''t''])
    = [Element ''div'' [(''class'', ''x'')]
         [Element ''h1'' [(''class'', ''t''), (''id'', ''intro'')] [Text ''Intro''], Comment ''c''],
       Element ''h5'' [(''id'', ''deep'')] [Text ''Deep''], Text ''t'']
   \<and> list_all2 only_ids
      [Element ''div'' [(''class'', ''x'')]
         [Element ''h1'' [(''class'', ''t'')] [Text ''Intro''], Comment ''c''],
       Element ''h5'' [] [Text ''Deep''], Text ''t'']
      [Element ''div'' [(''class'', ''x'')]
         [Element ''h1'' [(''class'', ''t''), (''id'', ''intro'')] [Text ''Intro''], Comment ''c''],
       Element ''h5'' [(''id'', ''deep'')] [Text ''Deep''], Text ''t'']
   \<and> map slug (collectHeadings exampleLibs
      [Element ''div'' [(''class'', ''x'')]
         [Element ''h1'' [(''class'', ''t'')] [Text ''Intro''], Comment ''c''],
       Element ''h5'' [] [Text ''Deep''], Text ''t'']) = [''intro'', ''deep'']"
proof -
  let ?tree = "[Element ''div'' [(''class'', ''x'')]
         [Element ''h1'' [(''class'', ''t'')] [Text ''Intro''], Comment ''c''],
       Element ''h5'' [] [Text ''Deep''], Text ''t'']"
  let ?tree' = "[Element ''div'' [(''class'', ''x'')]
         [Element ''h1'' [(''class'', ''t''), (''id'', ''intro'')] [Text ''Intro''], Comment ''c''],
       Element ''h5'' [(''id'', ''deep'')] [Text ''Deep''], Text ''t'']"
  have f: "fst (generateToc exampleLibs DEFAULT_OPTIONS ?tree) = ?tree'"
    by code_simp
  then have g: "generateToc exampleLibs DEFAULT_OPTIONS ?tree
      = (?tree', snd (generateToc exampleLibs DEFAULT_OPTIONS ?tree))"
    by (simp add: prod_eq_iff)
  have w: "concat (map written_ids ?tree') = [Some ''intro'', Some ''deep'']"
    by code_simp
  note t = only_heading_ids_written [OF g]
  have a: "list_all2 only_ids ?tree ?tree'"
    by (rule t [THEN conjunct1])
  have "map (Some \<circ> slug) (collectHeadings exampleLibs ?tree) = [Some ''intro'', Some ''deep'']"
    using t [THEN conjunct2] w by simp
  then have c: "map slug (collectHeadings exampleLibs ?tree) = [''intro'', ''deep'']"
    by (auto simp: map_eq_Cons_conv)
  show ?thesis
    by (rule conjI [OF f conjI [OF a c]])
qed

subsection \<open>Identifiers\<close>

text \<open>
  C6. A heading whose \<^verbatim>\<open>id\<close> is a non-empty string keeps it, and the identifiers the
  slugger generates for the other headings of a document are pairwise distinct.
\<close>

theorem generated_slugs_distinct:
  "list_all2 keeps_id (concat (map heading_props tree)) (collectHeadings L tree)
   \<and> distinct (generated (concat (map heading_props tree)) (collectHeadings L tree))"
proof -
  obtain tree' s hs where v: "visit_children L tree (slugger_new, []) = (tree', s, hs)"
    by (cases "visit_children L tree (slugger_new, [])")
  from visit_fresh(2) [OF v] v show ?thesis
    by (auto simp: collectHeadings_def fresh_run_def)
qed

theorem generated_slugs_distinct_witness:
  "list_all2 keeps_id
     (concat (map heading_props
        [Element ''h1'' [(''id'', ''foo'')] [Text ''Bar''], Element ''h2'' [] [Text ''Foo''],
         Element ''h2'' [] [Text ''Foo''], Element ''h3'' [(''id'', '''')] [Text ''Foo'']]))
     (collectHeadings exampleLibs
        [Element ''h1'' [(''id'', ''foo'')] [Text ''Bar''], Element ''h2'' [] [Text ''Foo''],
         Element ''h2'' [] [Text ''Foo''], Element ''h3'' [(''id'', '''')] [Text ''Foo'']])
   \<and> distinct [''foo'', ''foo-1'', ''foo-2'']
   \<and> generated
     (concat (map heading_props
        [Element ''h1'' [(''id'', ''foo'')] [Text ''Bar''], Element ''h2'' [] [Text ''Foo''],
         Element ''h2'' [] [Text ''Foo''], Element ''h3'' [(''id'', '''')] [Text ''Foo'']]))
     (collectHeadings exampleLibs
        [Element ''h1'' [(''id'', ''foo'')] [Text ''Bar''], Element ''h2'' [] [Text ''Foo''],
         Element ''h2'' [] [Text ''Foo''], Element ''h3'' [(''id'', '''')] [Text ''Foo'']])
     = [''foo'', ''foo-1'', ''foo-2'']"
proof -
  let ?tree = "[Element ''h1'' [(''id'', ''foo'')] [Text ''Bar''], Element ''h2'' [] [Text ''Foo''],
         Element ''h2'' [] [Text ''Foo''], Element ''h3'' [(''id'', '''')] [Text ''Foo'']]"
  have g: "generated (concat (map heading_props ?tree)) (collectHeadings exampleLibs ?tree)
      = [''foo'', ''foo-1'', ''foo-2'']"
    by code_simp
  from generated_slugs_distinct [of ?tree exampleLibs] g show ?thesis
    by simp
qed

text \<open>
  The slugger never sees an identifier a heading had already: the heading \<^verbatim>\<open>Foo\<close>
  without \<^verbatim>\<open>id\<close> gets the slug \<^verbatim>\<open>foo\<close>, which the heading before it carries as its
  \<^verbatim>\<open>id\<close>.
\<close>

theorem generated_slug_collides_counterexample:
  "map slug (collectHeadings exampleLibs
      [Element ''h1'' [(''id'', ''foo'')] [Text ''Bar''], Element ''h2'' [] [Text ''Foo'']])
     = [''foo'', ''foo'']
   \<and> \<not> distinct (map slug (collectHeadings exampleLibs
      [Element ''h1'' [(''id'', ''foo'')] [Text ''Bar''], Element ''h2'' [] [Text ''Foo'']]))"
  by code_simp

subsection \<open>A second run\<close>

text \<open>
  C8. When the text of a node does not depend on \<^verbatim>\<open>id\<close> properties, \<^verbatim>\<open>generateToc\<close>
  run again on the tree the first run left behind, with the same options, collects the
  same headings with the same identifiers, returns the same nodes or throws the same
  error, and leaves the tree as it is.
\<close>

theorem second_run_identical:
  assumes "ignores_ids L" and "generateToc L opts tree = (tree', r)"
  shows "collectHeadings L tree' = collectHeadings L tree \<and> generateToc L opts tree' = (tree', r)"
proof -
  obtain s hs where v: "visit_children L tree (slugger_new, []) = (tree', s, hs)"
    using assms(2) by (cases "visit_children L tree (slugger_new, [])") (auto simp: generateToc_eq)
  then have v': "visit_children L tree (slugger_new, []) = (tree', s, snd (slugger_new, []) @ hs)"
    by simp
  from assms(1) have inv: "\<forall>a b. only_ids a b \<longrightarrow> toText L a = toText L b"
    by (simp add: ignores_ids_def)
  have "has_key (fst (slugger_new, [])) [] \<or> slugger_new = []"
    by (simp add: slugger_new_def)
  from visit_rerun(2) [OF v' inv this, of "[]"]
  obtain t' where w: "visit_children L tree' (slugger_new, []) = (tree', t', hs)"
    by auto
  from v w have c: "collectHeadings L tree' = collectHeadings L tree"
    by (simp add: collectHeadings_def)
  from assms(2) v have "r = (case outline opts (collectHeadings L tree) of
         Inl e \<Rightarrow> Inl e
       | Inr None \<Rightarrow> Inr []
       | Inr (Some toc') \<Rightarrow> Inr (fromHtml L (template opts (toHtml L toc'))))"
    by (simp add: generateToc_eq)
  with c w show ?thesis
    by (simp add: generateToc_eq)
qed

theorem second_run_identical_witness:
  "ignores_ids exampleLibs
   \<and> fst (generateToc exampleLibs DEFAULT_OPTIONS
       [Element ''h1'' [] [Text ''Foo''], Element ''h2'' [] [Text ''!''],
        Element ''h2'' [(''id'', ''x'')] [Text ''Foo''], Element ''h3'' [] []])
     = [Element ''h1'' [(''id'', ''foo'')] [Text ''Foo''], Element ''h2'' [(''id'', '''')] [Text ''!''],
        Element ''h2'' [(''id'', ''x'')] [Text ''Foo''], Element ''h3'' [(''id'', ''-1'')] []]
   \<and> generateToc exampleLibs DEFAULT_OPTIONS
       [Element ''h1'' [(''id'', ''foo'')] [Text ''Foo''], Element ''h2'' [(''id'', '''')] [Text ''!''],
        Element ''h2'' [(''id'', ''x'')] [Text ''Foo''], Element ''h3'' [(''id'', ''-1'')] []]
     = generateToc exampleLibs DEFAULT_OPTIONS
       [Element ''h1'' [] [Text ''Foo''], Element ''h2'' [] [Text ''!''],
        Element ''h2'' [(''id'', ''x'')] [Text ''Foo''], Element ''h3'' [] []]"
proof -
  let ?tree = "[Element ''h1'' [] [Text ''Foo''], Element ''h2'' [] [Text ''!''],
        Element ''h2'' [(''id'', ''x'')] [Text ''Foo''], Element ''h3'' [] []]"
  let ?tree' = "[Element ''h1'' [(''id'', ''foo'')] [Text ''Foo''], Element ''h2'' [(''id'', '''')] [Text ''!''],
        Element ''h2'' [(''id'', ''x'')] [Text ''Foo''], Element ''h3'' [(''id'', ''-1'')] []]"
  have f: "fst (generateToc exampleLibs DEFAULT_OPTIONS ?tree) = ?tree'"
    by code_simp
  then have g: "generateToc exampleLibs DEFAULT_OPTIONS ?tree
      = (?tree', snd (generateToc exampleLibs DEFAULT_OPTIONS ?tree))"
    by (simp add: prod_eq_iff)
  from second_run_identical [OF ignores_ids_exampleLibs g] g
  have "generateToc exampleLibs DEFAULT_OPTIONS ?tree'
      = generateToc exampleLibs DEFAULT_OPTIONS ?tree"
    by simp
  with f ignores_ids_exampleLibs show ?thesis
    by simp
qed

section \<open>Properties of the transformer\<close>

lemma sole_marker_iff: "sole_marker cs = (\<exists>v. cs = [Comment v] \<and> is_marker v)"
  by (cases cs rule: sole_marker.cases) auto

lemma returns_end:
  "length kids \<le> offset \<Longrightarrow> walk_returns tn is_p offset kids flags (kids, flags)"
  unfolding walk_returns_def
proof (intro exI [of _ 1] allI impI)
  fix f :: nat
  assume "length kids \<le> offset" "1 \<le> f"
  then obtain g where "f = Suc g" by (cases f) auto
  with \<open>length kids \<le> offset\<close> show "walk f tn is_p offset kids flags = Some (kids, flags)"
    by (cases flags) simp
qed

lemma returns_step:
  assumes "\<And>f. walk (Suc f) tn is_p offset kids flags = walk f tn is_p' offset' kids' flags'"
    and "walk_returns tn is_p' offset' kids' flags' r"
  shows "walk_returns tn is_p offset kids flags r"
proof -
  from assms(2) obtain f0 where f0: "\<forall>f\<ge>f0. walk f tn is_p' offset' kids' flags' = Some r"
    by (auto simp: walk_returns_def)
  have "\<forall>f\<ge>Suc f0. walk f tn is_p offset kids flags = Some r"
  proof (intro allI impI)
    fix f assume "Suc f0 \<le> f"
    then obtain g where g: "f = Suc g" "f0 \<le> g" by (cases f) auto
    with f0 assms(1) show "walk f tn is_p offset kids flags = Some r" by simp
  qed
  then show ?thesis by (auto simp: walk_returns_def)
qed

lemma walk_text:
  "offset < length kids \<Longrightarrow> kids ! offset = Text v \<Longrightarrow>
   walk (Suc f) tn is_p offset kids flags = walk f tn is_p (Suc offset) kids flags"
  by (cases flags) simp

lemma walk_doctype:
  "offset < length kids \<Longrightarrow> kids ! offset = Doctype \<Longrightarrow>
   walk (Suc f) tn is_p offset kids flags = walk f tn is_p (Suc offset) kids flags"
  by (cases flags) simp

lemma walk_comment:
  "offset < length kids \<Longrightarrow> kids ! offset = Comment v \<Longrightarrow> \<not> is_marker v \<Longrightarrow>
   walk (Suc f) tn is_p offset kids flags = walk f tn is_p (Suc offset) kids flags"
  by (cases flags) simp

lemma walk_marker:
  "offset < length kids \<Longrightarrow> kids ! offset = Comment v \<Longrightarrow> is_marker v \<Longrightarrow>
   \<not> (is_p \<and> length kids = 1) \<Longrightarrow>
   walk (Suc f) tn is_p offset kids (replaced, inserted)
     = walk f tn is_p (Suc offset) (splice offset tn kids) (replaced, True)"
  by auto

lemma walk_sole_marker:
  "is_marker v \<Longrightarrow>
   walk (Suc f) tn True 0 [Comment v] (replaced, inserted)
     = walk f tn True (Suc 0) [Comment v] (True, True)"
  by simp

lemma returns_skip:
  assumes "offset < length kids"
    and "(\<exists>v. kids ! offset = Text v) \<or> kids ! offset = Doctype
          \<or> (\<exists>v. kids ! offset = Comment v \<and> \<not> is_marker v)"
    and "walk_returns tn is_p (Suc offset) kids flags r"
  shows "walk_returns tn is_p offset kids flags r"
proof (rule returns_step [OF _ assms(3)])
  fix f
  from assms(2) consider v where "kids ! offset = Text v" | "kids ! offset = Doctype"
    | v where "kids ! offset = Comment v" "\<not> is_marker v"
    by blast
  then show "walk (Suc f) tn is_p offset kids flags = walk f tn is_p (Suc offset) kids flags"
  proof cases
    case 1
    with assms(1) show ?thesis by (rule walk_text)
  next
    case 2
    with assms(1) show ?thesis by (rule walk_doctype)
  next
    case 3
    with assms(1) show ?thesis by (rule walk_comment)
  qed
qed

lemma returns_marker:
  assumes "offset < length kids" and "kids ! offset = Comment v" and "is_marker v"
    and "\<not> (is_p \<and> length kids = 1)"
    and "walk_returns tn is_p (Suc offset) (splice offset tn kids) (replaced, True) r"
  shows "walk_returns tn is_p offset kids (replaced, inserted) r"
  by (rule returns_step [OF walk_marker [OF assms(1-4)] assms(5)])

lemma returns_sole_marker:
  assumes "sole_marker kids"
  shows "walk_returns tn True 0 kids (replaced, inserted) (kids, True, True)"
proof -
  from assms obtain v where k: "kids = [Comment v]" "is_marker v"
    by (auto simp: sole_marker_iff)
  have "walk_returns tn True (Suc 0) [Comment v] (True, True) ([Comment v], True, True)"
    by (rule returns_end) simp
  then have "walk_returns tn True 0 [Comment v] (replaced, inserted) ([Comment v], True, True)"
    by (rule returns_step [OF walk_sole_marker [OF k(2)]])
  with k show ?thesis by simp
qed

lemma walk_element:
  "offset < length kids \<Longrightarrow> kids ! offset = Element t p cs \<Longrightarrow>
   walk f tn (t = ''p'') 0 cs (False, inserted) = Some (cs', gone, inserted') \<Longrightarrow>
   walk (Suc f) tn is_p offset kids (replaced, inserted)
     = walk f tn is_p (Suc offset)
         (if gone then splice offset tn kids else kids[offset := Element t p cs'])
         (replaced, inserted')"
  by simp

lemma returns_element:
  assumes "offset < length kids" and "kids ! offset = Element t p cs"
    and "walk_returns tn (t = ''p'') 0 cs (False, inserted) (cs', gone, inserted')"
    and "walk_returns tn is_p (Suc offset)
           (if gone then splice offset tn kids else kids[offset := Element t p cs'])
           (replaced, inserted') r"
  shows "walk_returns tn is_p offset kids (replaced, inserted) r"
proof -
  from assms(3) obtain f1 where f1:
    "\<forall>f\<ge>f1. walk f tn (t = ''p'') 0 cs (False, inserted) = Some (cs', gone, inserted')"
    by (auto simp: walk_returns_def)
  from assms(4) obtain f2 where f2:
    "\<forall>f\<ge>f2. walk f tn is_p (Suc offset)
           (if gone then splice offset tn kids else kids[offset := Element t p cs'])
           (replaced, inserted') = Some r"
    by (auto simp: walk_returns_def)
  have "\<forall>f\<ge>Suc (max f1 f2). walk f tn is_p offset kids (replaced, inserted) = Some r"
  proof (intro allI impI)
    fix f assume "Suc (max f1 f2) \<le> f"
    then obtain g where g: "f = Suc g" "f1 \<le> g" "f2 \<le> g" by (cases f) auto
    with f1 have "walk g tn (t = ''p'') 0 cs (False, inserted) = Some (cs', gone, inserted')"
      by simp
    from walk_element [OF assms(1,2) this] g f2
    show "walk f tn is_p offset kids (replaced, inserted) = Some r"
      by simp
  qed
  then show ?thesis by (auto simp: walk_returns_def)
qed

lemma splice_append: "splice (length pre) tn (pre @ x # rest) = pre @ tn @ rest"
  by (simp add: splice_def)

lemma update_append: "(pre @ x # rest)[length pre := y] = pre @ y # rest"
  by (simp add: list_update_append)

lemma skip_segment:
  assumes "\<forall>c\<in>set mid. no_marker c \<and> unchanged tn c"
    and "walk_returns tn is_p (length pre + length mid) (pre @ mid @ rest) (replaced, inserted) r"
  shows "walk_returns tn is_p (length pre) (pre @ mid @ rest) (replaced, inserted) r"
  using assms
proof (induction mid arbitrary: pre)
  case Nil
  then show ?case by simp
next
  case (Cons x mid)
  from Cons.prems(2)
  have far: "walk_returns tn is_p (length (pre @ [x]) + length mid) ((pre @ [x]) @ mid @ rest) (replaced, inserted) r"
    by simp
  from Cons.prems(1) have tl: "\<forall>c\<in>set mid. no_marker c \<and> unchanged tn c"
    by simp
  have
    "walk_returns tn is_p (length (pre @ [x])) ((pre @ [x]) @ mid @ rest) (replaced, inserted) r"
    by (rule Cons.IH [OF tl far])
  then have next': "walk_returns tn is_p (Suc (length pre)) (pre @ x # mid @ rest) (replaced, inserted) r"
    by simp
  have lt: "length pre < length (pre @ x # mid @ rest)" by simp
  have at: "(pre @ x # mid @ rest) ! length pre = x" by simp
  from Cons.prems(1) have nm: "no_marker x" and un: "unchanged tn x" by simp_all
  show ?case
  proof (cases x)
    case (Element t p cs)
    from un Element have "walk_returns tn (t = ''p'') 0 cs (False, inserted) (cs, False, inserted)"
      by (simp add: unchanged_def)
    moreover from next' Element have "walk_returns tn is_p (Suc (length pre))
        (if False then splice (length pre) tn (pre @ x # mid @ rest)
         else (pre @ x # mid @ rest)[length pre := Element t p cs]) (replaced, inserted) r"
      by (simp add: update_append)
    ultimately show ?thesis
      using lt at Element by - (rule returns_element [where cs' = cs and gone = False], simp_all)
  next
    case (Text v)
    show ?thesis
      by (rule returns_skip) (use Text lt at next' in \<open>simp_all\<close>)
  next
    case (Comment v)
    show ?thesis
      by (rule returns_skip) (use Comment lt at next' nm in \<open>simp_all\<close>)
  next
    case Doctype
    show ?thesis
      by (rule returns_skip) (use Doctype lt at next' in \<open>simp_all\<close>)
  qed
qed

lemma no_marker_unchanged: "no_marker c \<Longrightarrow> unchanged tn c"
proof (induction c)
  case (Element t p cs)
  then have all: "\<forall>c\<in>set cs. no_marker c \<and> unchanged tn c"
    by (simp add: list_all_iff)
  show ?case
    unfolding unchanged_def
  proof (intro allI impI)
    fix t' p' cs' inserted
    assume "Element t p cs = Element t' p' cs'"
    then have e: "t' = t" "cs' = cs" by simp_all
    have "walk_returns tn (t = ''p'') (length ([]::node list) + length cs) ([] @ cs @ []) (False, inserted) (cs, False, inserted)"
      by (simp add: returns_end)
    from skip_segment [OF all this]
    show "walk_returns tn (t' = ''p'') 0 cs' (False, inserted) (cs', False, inserted)"
      using e by simp
  qed
qed (simp_all add: unchanged_def)

lemma walk_no_marker:
  assumes "list_all no_marker kids"
  shows "walk_returns tn is_p 0 kids (replaced, inserted) (kids, replaced, inserted)"
proof -
  from assms have all: "\<forall>c\<in>set kids. no_marker c \<and> unchanged tn c"
    by (simp add: list_all_iff no_marker_unchanged)
  have "walk_returns tn is_p (length ([]::node list) + length kids) ([] @ kids @ []) (replaced, inserted) (kids, replaced, inserted)"
    by (simp add: returns_end)
  from skip_segment [OF all this] show ?thesis by simp
qed

lemma after_splice:
  assumes tn: "tn \<noteq> []" "list_all no_marker tn"
    and "walk_returns tn is_p (length (pre @ tn)) ((pre @ tn) @ rest) flags r"
  shows "walk_returns tn is_p (Suc (length pre)) (pre @ tn @ rest) flags r"
proof -
  from tn(1) obtain t0 ts where t: "tn = t0 # ts" by (cases tn) auto
  with tn(2) have all: "\<forall>c\<in>set ts. no_marker c \<and> unchanged tn c"
    by (simp add: list_all_iff no_marker_unchanged)
  obtain a b where f: "flags = (a, b)" by (cases flags)
  from assms(3) t f have "walk_returns tn is_p (length (pre @ [t0]) + length ts) ((pre @ [t0]) @ ts @ rest) (a, b) r"
    by simp
  from skip_segment [OF all this] t f show ?thesis by simp
qed

lemma walk_replaces:
  assumes tn: "tn \<noteq> []" "list_all no_marker tn"
    and "\<forall>c\<in>set rest. replaced_in tn c"
    and "pre \<noteq> [] \<or> \<not> (is_p \<and> sole_marker rest)"
  shows "walk_returns tn is_p (length pre) (pre @ rest) (replaced, inserted)
    (pre @ concat (map (replace_markers tn) rest), replaced, inserted \<or> \<not> list_all no_marker rest)"
  using assms(3,4)
proof (induction rest arbitrary: pre inserted)
  case Nil
  show ?case by (simp add: returns_end)
next
  case (Cons x rest)
  have lt: "length pre < length (pre @ x # rest)" by simp
  have at: "(pre @ x # rest) ! length pre = x" by simp
  from Cons.prems(1) have ri: "\<forall>c\<in>set rest. replaced_in tn c" and rx: "replaced_in tn x"
    by simp_all
  have spliced: "walk_returns tn is_p (Suc (length pre)) (splice (length pre) tn (pre @ x # rest))
      (replaced, True) (pre @ tn @ concat (map (replace_markers tn) rest), replaced, True)"
  proof -
    from tn(1) have "pre @ tn \<noteq> [] \<or> \<not> (is_p \<and> sole_marker rest)" by simp
    from Cons.IH [OF ri this, of True]
    have "walk_returns tn is_p (length (pre @ tn)) ((pre @ tn) @ rest) (replaced, True)
      ((pre @ tn) @ concat (map (replace_markers tn) rest), replaced, True)"
      by simp
    from after_splice [OF tn this] show ?thesis
      by (simp add: splice_append)
  qed
  have kept: "walk_returns tn is_p (Suc (length pre)) (pre @ y # rest) (replaced, ins)
      (pre @ y # concat (map (replace_markers tn) rest), replaced, ins \<or> \<not> list_all no_marker rest)"
    for y ins
  proof -
    have "pre @ [y] \<noteq> [] \<or> \<not> (is_p \<and> sole_marker rest)" by simp
    from Cons.IH [OF ri this, of ins] show ?thesis by simp
  qed
  show ?case
  proof (cases x)
    case (Text v)
    show ?thesis
      by (rule returns_skip) (use Text lt at kept [of x inserted] in \<open>simp_all\<close>)
  next
    case Doctype
    show ?thesis
      by (rule returns_skip) (use Doctype lt at kept [of x inserted] in \<open>simp_all\<close>)
  next
    case (Comment v)
    show ?thesis
    proof (cases "is_marker v")
      case False
      show ?thesis
        by (rule returns_skip) (use False Comment lt at kept [of x inserted] in \<open>simp_all\<close>)
    next
      case True
      from Cons.prems(2) Comment True have one: "\<not> (is_p \<and> length (pre @ x # rest) = 1)"
        by (cases rest) auto
      show ?thesis
        by (rule returns_marker [where v = v]) (use one lt at Comment True spliced in \<open>simp_all\<close>)
    qed
  next
    case (Element t p cs)
    show ?thesis
    proof (cases "t = ''p'' \<and> sole_marker cs")
      case True
      then have nested: "walk_returns tn (t = ''p'') 0 cs (False, inserted) (cs, True, True)"
        using returns_sole_marker [of cs tn False inserted] by simp
      from True have some: "\<not> list_all no_marker cs"
        by (auto simp: sole_marker_iff)
      show ?thesis
        by (rule returns_element [OF _ _ nested]) (use some lt at Element True spliced in \<open>simp_all\<close>)
    next
      case False
      let ?cs' = "concat (map (replace_markers tn) cs)"
      from rx Element False
      have nested: "walk_returns tn (t = ''p'') 0 cs (False, inserted)
          (?cs', False, inserted \<or> \<not> list_all no_marker cs)"
        by (simp add: replaced_in_def)
      show ?thesis
        by (rule returns_element [OF _ _ nested])
          (use kept [of "Element t p ?cs'" "inserted \<or> \<not> list_all no_marker cs"] Element False lt at
            in \<open>auto simp: update_append\<close>)
    qed
  qed
qed

lemma replaced_in_all:
  assumes tn: "tn \<noteq> []" "list_all no_marker tn"
  shows "replaced_in tn c"
proof (induction c)
  case (Element t p cs)
  show ?case
    unfolding replaced_in_def
  proof (intro allI impI)
    fix t' p' cs' inserted
    assume e: "Element t p cs = Element t' p' cs'" and ns: "\<not> (t' = ''p'' \<and> sole_marker cs')"
    from Element have all: "\<forall>c\<in>set cs'. replaced_in tn c" using e by simp
    from ns have "[] \<noteq> ([]::node list) \<or> \<not> ((t' = ''p'') \<and> sole_marker cs')" by simp
    from walk_replaces [OF tn all this, of False inserted]
    show "walk_returns tn (t' = ''p'') 0 cs' (False, inserted)
        (concat (map (replace_markers tn) cs'), False, inserted \<or> \<not> list_all no_marker cs')"
      by simp
  qed
qed (simp_all add: replaced_in_def)

lemma walk_root_replaces:
  assumes tn: "tn \<noteq> []" "list_all no_marker tn"
  shows "walk_returns tn False 0 tree (False, False)
    (concat (map (replace_markers tn) tree), False, \<not> list_all no_marker tree)"
proof -
  have all: "\<forall>c\<in>set tree. replaced_in tn c"
    by (simp add: replaced_in_all [OF tn])
  have "[] \<noteq> ([]::node list) \<or> \<not> (False \<and> sole_marker tree)" by simp
  from walk_replaces [OF tn all this, of False False] show ?thesis by simp
qed

subsection \<open>What the transformer does with the nodes\<close>

lemma insert_toc_no_marker:
  assumes "list_all no_marker tree"
  shows "\<exists>f0. \<forall>f\<ge>f0. insert_toc f tn tree = Some (tn @ tree)"
proof -
  from walk_no_marker [OF assms, of tn False False False]
  obtain f0 where "\<forall>f\<ge>f0. walk f tn False 0 tree (False, False) = Some (tree, False, False)"
    by (auto simp: walk_returns_def)
  then have "\<forall>f\<ge>f0. insert_toc f tn tree = Some (tn @ tree)"
    by (simp add: insert_toc_def)
  then show ?thesis ..
qed

lemma insert_toc_replaces:
  assumes "tn \<noteq> []" and "list_all no_marker tn" and "\<not> list_all no_marker tree"
  shows "\<exists>f0. \<forall>f\<ge>f0. insert_toc f tn tree = Some (concat (map (replace_markers tn) tree))"
proof -
  from walk_root_replaces [OF assms(1,2), of tree]
  obtain f0 where "\<forall>f\<ge>f0. walk f tn False 0 tree (False, False)
      = Some (concat (map (replace_markers tn) tree), False, \<not> list_all no_marker tree)"
    by (auto simp: walk_returns_def)
  with assms(3) have "\<forall>f\<ge>f0. insert_toc f tn tree = Some (concat (map (replace_markers tn) tree))"
    by (simp add: insert_toc_def)
  then show ?thesis ..
qed

lemma only_ids_no_marker: "only_ids a b \<Longrightarrow> no_marker b = no_marker a"
proof (induction a b rule: only_ids.induct)
  case (1 t p cs t' p' cs')
  then have "list_all2 (\<lambda>x y. no_marker y = no_marker x) cs cs'"
    by (auto simp: list_all2_conv_all_nth in_set_zip intro: list_all2_all_nthI)
  then have "list_all no_marker cs' = list_all no_marker cs"
    by (induction cs cs' rule: list_all2_induct) auto
  then show ?case by simp
qed auto

lemma only_ids_no_marker_list:
  "list_all2 only_ids tree tree' \<Longrightarrow> list_all no_marker tree' = list_all no_marker tree"
  by (induction tree tree' rule: list_all2_induct) (auto simp: only_ids_no_marker)

lemma transformer_inserts:
  "generateToc L opts tree = (tree', Inr tn) \<Longrightarrow>
   transformer L opts f tree = map_option (\<lambda>t. (t, None)) (insert_toc f tn tree')"
  by (simp add: transformer_def split: option.splits)

lemma transformer_prepends:
  assumes "generateToc L opts tree = (tree', Inr tn)" and "list_all no_marker tree"
  shows "\<exists>f0. \<forall>f\<ge>f0. transformer L opts f tree = Some (tn @ tree', None)"
proof -
  obtain s hs where v: "visit_children L tree (slugger_new, []) = (tree', s, hs)"
    using assms(1)
    by (cases "visit_children L tree (slugger_new, [])") (auto simp: generateToc_eq)
  from visit_only_ids(2) [OF v] assms(2) have "list_all no_marker tree'"
    by (simp add: only_ids_no_marker_list)
  from insert_toc_no_marker [OF this, of tn] show ?thesis
    by (auto simp: transformer_inserts [OF assms(1)])
qed

lemma transformer_replaces:
  assumes "generateToc L opts tree = (tree', Inr tn)"
    and "tn \<noteq> []" and "list_all no_marker tn" and "\<not> list_all no_marker tree"
  shows "\<exists>f0. \<forall>f\<ge>f0. transformer L opts f tree
    = Some (concat (map (replace_markers tn) tree'), None)"
proof -
  obtain s hs where v: "visit_children L tree (slugger_new, []) = (tree', s, hs)"
    using assms(1)
    by (cases "visit_children L tree (slugger_new, [])") (auto simp: generateToc_eq)
  from visit_only_ids(2) [OF v] assms(4) have "\<not> list_all no_marker tree'"
    by (simp add: only_ids_no_marker_list)
  from insert_toc_replaces [OF assms(2,3) this] show ?thesis
    by (auto simp: transformer_inserts [OF assms(1)])
qed

text \<open>
  C5. When the document holds no marker comment, the nodes of the outline are put in
  front of the children of the root. When it holds marker comments, nothing is put
  in front, and the replacement is made at every marker the walk meets, not at the first
  only: with outline nodes that are not empty and hold no marker themselves, every
  marker comment of the document is replaced by the nodes, or the paragraph it is the
  only child of, one insertion for each marker.
\<close>

theorem every_marker_replaced:
  assumes "generateToc L opts tree = (tree', Inr tocNodes)"
  shows "(list_all no_marker tree \<longrightarrow>
            (\<exists>f0. \<forall>f\<ge>f0. transformer L opts f tree = Some (tocNodes @ tree', None)))
       \<and> (tocNodes \<noteq> [] \<and> list_all no_marker tocNodes \<and> \<not> list_all no_marker tree \<longrightarrow>
            (\<exists>f0. \<forall>f\<ge>f0. transformer L opts f tree
               = Some (concat (map (replace_markers tocNodes) tree'), None)))"
  using transformer_prepends [OF assms] transformer_replaces [OF assms]
  by blast

theorem every_marker_replaced_witness:
  "generateToc exampleLibs DEFAULT_OPTIONS
      [Element ''h1'' [] [Text ''A''], Element ''p'' [] [Comment ''toc''],
       Element ''div'' [] [Text ''x'', Comment '' TOC '']]
    = ([Element ''h1'' [(''id'', ''a'')] [Text ''A''], Element ''p'' [] [Comment ''toc''],
        Element ''div'' [] [Text ''x'', Comment '' TOC '']],
       Inr [Element ''aside'' [] [Text (defaultTemplate ''<ul>'')]])
   \<and> \<not> list_all no_marker
      [Element ''h1'' [] [Text ''A''], Element ''p'' [] [Comment ''toc''],
       Element ''div'' [] [Text ''x'', Comment '' TOC '']]
   \<and> list_all no_marker [Element ''aside'' [] [Text (defaultTemplate ''<ul>'')]]
   \<and> (\<exists>f0. \<forall>f\<ge>f0. transformer exampleLibs DEFAULT_OPTIONS f
      [Element ''h1'' [] [Text ''A''], Element ''p'' [] [Comment ''toc''],
       Element ''div'' [] [Text ''x'', Comment '' TOC '']]
    = Some ([Element ''h1'' [(''id'', ''a'')] [Text ''A''],
             Element ''aside'' [] [Text (defaultTemplate ''<ul>'')],
             Element ''div'' [] [Text ''x'', Element ''aside'' [] [Text (defaultTemplate ''<ul>'')]]],
            None))"
proof -
  let ?tree = "[Element ''h1'' [] [Text ''A''], Element ''p'' [] [Comment ''toc''],
       Element ''div'' [] [Text ''x'', Comment '' TOC '']]"
  let ?tree' = "[Element ''h1'' [(''id'', ''a'')] [Text ''A''], Element ''p'' [] [Comment ''toc''],
        Element ''div'' [] [Text ''x'', Comment '' TOC '']]"
  let ?nodes = "[Element ''aside'' [] [Text (defaultTemplate ''<ul>'')]]"
  have g: "generateToc exampleLibs DEFAULT_OPTIONS ?tree = (?tree', Inr ?nodes)"
    by code_simp
  have m: "\<not> list_all no_marker ?tree"
    by code_simp
  have n: "?nodes \<noteq> [] \<and> list_all no_marker ?nodes \<and> \<not> list_all no_marker ?tree"
    by code_simp
  have r: "concat (map (replace_markers ?nodes) ?tree') =
      [Element ''h1'' [(''id'', ''a'')] [Text ''A''],
             Element ''aside'' [] [Text (defaultTemplate ''<ul>'')],
             Element ''div'' [] [Text ''x'', Element ''aside'' [] [Text (defaultTemplate ''<ul>'')]]]"
    by code_simp
  note t = every_marker_replaced [OF g, THEN conjunct2, THEN mp, OF n]
  from g n t show ?thesis
    unfolding r by simp
qed

text \<open>A document with two markers gets the outline twice.\<close>

theorem first_marker_only_counterexample:
  "transformer exampleLibs DEFAULT_OPTIONS 10
     [Element ''h1'' [] [Text ''A''], Comment ''toc'', Text ''x'', Comment '' TOC '']
   = Some ([Element ''h1'' [(''id'', ''a'')] [Text ''A''],
            Element ''aside'' [] [Text (defaultTemplate ''<ul>'')],
            Text ''x'',
            Element ''aside'' [] [Text (defaultTemplate ''<ul>'')]], None)"
  by code_simp

subsection \<open>No heading, and no eligible heading\<close>

lemma defaultTemplate_eq:
  "defaultTemplate html =
     ''<aside class='' @ [CHR 0x22] @ ''toc'' @ [CHR 0x22] @ ''>\<newline>''
       @ ''    <h2>Contents</h2>\<newline>''
       @ ''    <nav>\<newline>''
       @ ''        '' @ html @ ''\<newline>''
       @ ''    </nav>\<newline>''
       @ ''</aside>''"
  by (simp add: defaultTemplate_def trim_def is_space_def)

lemma outline_none_eligible:
  assumes "list_all (\<lambda>x. \<not> eligible opts x) (first # rest)"
  shows "outline opts (first # rest)
    = Inr (Some (Element (if ordered opts then ''ol'' else ''ul'') [] []))"
proof -
  from assms have "filter (eligible opts) (first # rest) = []"
    by (auto simp: list_all_iff filter_empty_conv)
  then have "for_headings opts (initial_state opts first) (first # rest)
      = Inr (initial_state opts first)"
    by (subst for_headings_filter) simp
  then show ?thesis
    by (simp add: outline_def initial_state_def)
qed

lemma walk_sole_paragraph:
  assumes "is_marker v"
  shows "insert_toc (Suc (Suc (Suc f))) [] [Element ''p'' props [Comment v]] = Some []"
  using assms by (simp add: insert_toc_def splice_def)

text \<open>
  C10. Without any heading \<^verbatim>\<open>generateToc\<close> returns no node and never applies the
  template, and a paragraph whose only child is the marker is replaced by nothing. With
  headings that are all deeper than \<^verbatim>\<open>maxDepth\<close> it returns what the parser makes of
  the template applied to the serialised empty list; with the default template that
  markup is the wrapper around the serialised list and is not empty; the nodes the
  parser returns for it are put in the place of the markers of the document.
\<close>

theorem no_heading_versus_no_eligible_heading:
  "(collectHeadings L tree = [] \<longrightarrow> snd (generateToc L opts tree) = Inr [])
   \<and> (collectHeadings L tree \<noteq> [] \<and> list_all (\<lambda>x. \<not> eligible opts x) (collectHeadings L tree) \<longrightarrow>
        snd (generateToc L opts tree) = Inr (wrapper_nodes L opts))
   \<and> (template opts = defaultTemplate \<longrightarrow>
        wrapper_nodes L opts = fromHtml L
          (''<aside class='' @ [CHR 0x22] @ ''toc'' @ [CHR 0x22] @ ''>\<newline>''
            @ ''    <h2>Contents</h2>\<newline>''
            @ ''    <nav>\<newline>''
            @ ''        '' @ toHtml L (Element (if ordered opts then ''ol'' else ''ul'') [] [])
            @ ''\<newline>''
            @ ''    </nav>\<newline>''
            @ ''</aside>''))
   \<and> defaultTemplate html \<noteq> []
   \<and> (is_marker v \<longrightarrow>
        transformer L opts (Suc (Suc (Suc fuel))) [Element ''p'' props [Comment v]] = Some ([], None))
   \<and> (collectHeadings L tree \<noteq> [] \<and> list_all (\<lambda>x. \<not> eligible opts x) (collectHeadings L tree)
        \<and> wrapper_nodes L opts \<noteq> [] \<and> list_all no_marker (wrapper_nodes L opts)
        \<and> \<not> list_all no_marker tree \<longrightarrow>
        (\<exists>f0. \<forall>f\<ge>f0. transformer L opts f tree
           = Some (concat (map (replace_markers (wrapper_nodes L opts))
                (fst (generateToc L opts tree))), None)))"
proof (intro conjI impI)
  assume "collectHeadings L tree = []"
  then show "snd (generateToc L opts tree) = Inr []"
    by (simp add: generateToc_eq outline_def)
next
  assume a: "collectHeadings L tree \<noteq> []
    \<and> list_all (\<lambda>x. \<not> eligible opts x) (collectHeadings L tree)"
  then obtain first rest where c: "collectHeadings L tree = first # rest"
    by (cases "collectHeadings L tree") auto
  with a outline_none_eligible [of opts first rest]
  show "snd (generateToc L opts tree) = Inr (wrapper_nodes L opts)"
    by (simp add: generateToc_eq wrapper_nodes_def)
next
  assume "template opts = defaultTemplate"
  then show "wrapper_nodes L opts = fromHtml L
          (''<aside class='' @ [CHR 0x22] @ ''toc'' @ [CHR 0x22] @ ''>\<newline>''
            @ ''    <h2>Contents</h2>\<newline>''
            @ ''    <nav>\<newline>''
            @ ''        '' @ toHtml L (Element (if ordered opts then ''ol'' else ''ul'') [] [])
            @ ''\<newline>''
            @ ''    </nav>\<newline>''
            @ ''</aside>'')"
    by (simp only: wrapper_nodes_def defaultTemplate_eq)
next
  show "defaultTemplate html \<noteq> []"
    by (simp add: defaultTemplate_eq)
next
  assume m: "is_marker v"
  have "generateToc L opts [Element ''p'' props [Comment v]]
      = ([Element ''p'' props [Comment v]], Inr [])"
    by (simp add: generateToc_def heading_tags_def outline_def)
  from transformer_inserts [OF this] walk_sole_paragraph [OF m]
  show "transformer L opts (Suc (Suc (Suc fuel))) [Element ''p'' props [Comment v]] = Some ([], None)"
    by simp
next
  assume a: "collectHeadings L tree \<noteq> [] \<and> list_all (\<lambda>x. \<not> eligible opts x) (collectHeadings L tree)
        \<and> wrapper_nodes L opts \<noteq> [] \<and> list_all no_marker (wrapper_nodes L opts)
        \<and> \<not> list_all no_marker tree"
  then obtain first rest where c: "collectHeadings L tree = first # rest"
    by (cases "collectHeadings L tree") auto
  with a outline_none_eligible [of opts first rest]
  have "generateToc L opts tree = (fst (generateToc L opts tree), Inr (wrapper_nodes L opts))"
    by (simp add: generateToc_eq wrapper_nodes_def)
  from transformer_replaces [OF this] a
  show "\<exists>f0. \<forall>f\<ge>f0. transformer L opts f tree
           = Some (concat (map (replace_markers (wrapper_nodes L opts))
                (fst (generateToc L opts tree))), None)"
    by simp
qed

theorem no_heading_versus_no_eligible_heading_witness:
  "collectHeadings exampleLibs [Element ''p'' [] [Comment '' toc '']] = []
   \<and> snd (generateToc exampleLibs DEFAULT_OPTIONS [Element ''p'' [] [Comment '' toc '']]) = Inr []
   \<and> collectHeadings exampleLibs [Element ''h4'' [] [Text ''D''], Comment ''toc''] \<noteq> []
   \<and> list_all (\<lambda>x. \<not> eligible DEFAULT_OPTIONS x)
        (collectHeadings exampleLibs [Element ''h4'' [] [Text ''D''], Comment ''toc''])
   \<and> template DEFAULT_OPTIONS = defaultTemplate
   \<and> wrapper_nodes exampleLibs DEFAULT_OPTIONS
       = [Element ''aside'' [] [Text (defaultTemplate ''<ul>'')]]
   \<and> list_all no_marker (wrapper_nodes exampleLibs DEFAULT_OPTIONS)
   \<and> \<not> list_all no_marker [Element ''h4'' [] [Text ''D''], Comment ''toc'']
   \<and> snd (generateToc exampleLibs DEFAULT_OPTIONS [Element ''h4'' [] [Text ''D''], Comment ''toc''])
       = Inr [Element ''aside'' [] [Text (defaultTemplate ''<ul>'')]]
   \<and> (\<exists>f0. \<forall>f\<ge>f0. transformer exampleLibs DEFAULT_OPTIONS f
         [Element ''h4'' [] [Text ''D''], Comment ''toc'']
       = Some ([Element ''h4'' [(''id'', ''d'')] [Text ''D''],
                Element ''aside'' [] [Text (defaultTemplate ''<ul>'')]], None))
   \<and> is_marker '' toc ''
   \<and> transformer exampleLibs DEFAULT_OPTIONS 3 [Element ''p'' [] [Comment '' toc '']] = Some ([], None)"
proof -
  let ?t1 = "[Element ''p'' [] [Comment '' toc '']]"
  let ?t2 = "[Element ''h4'' [] [Text ''D''], Comment ''toc'']"
  note t = no_heading_versus_no_eligible_heading
    [of exampleLibs _ DEFAULT_OPTIONS _ "'' toc ''" 0 "[]"]
  have a: "collectHeadings exampleLibs ?t1 = []"
    by code_simp
  have b: "collectHeadings exampleLibs ?t2 \<noteq> []
      \<and> list_all (\<lambda>x. \<not> eligible DEFAULT_OPTIONS x) (collectHeadings exampleLibs ?t2)"
    by code_simp
  have m: "is_marker '' toc ''"
    by code_simp
  have d: "template DEFAULT_OPTIONS = defaultTemplate"
    by (simp add: DEFAULT_OPTIONS_def)
  have e: "wrapper_nodes exampleLibs DEFAULT_OPTIONS
      = [Element ''aside'' [] [Text (defaultTemplate ''<ul>'')]]"
    using t [of "[]", THEN conjunct2, THEN conjunct2, THEN conjunct1, THEN mp, OF d]
    by (simp add: exampleLibs_def DEFAULT_OPTIONS_def defaultTemplate_eq)
  have n: "list_all no_marker (wrapper_nodes exampleLibs DEFAULT_OPTIONS)"
    unfolding e by simp
  have k: "\<not> list_all no_marker ?t2"
    by code_simp
  have c: "collectHeadings exampleLibs ?t2 \<noteq> []
      \<and> list_all (\<lambda>x. \<not> eligible DEFAULT_OPTIONS x) (collectHeadings exampleLibs ?t2)
      \<and> wrapper_nodes exampleLibs DEFAULT_OPTIONS \<noteq> []
      \<and> list_all no_marker (wrapper_nodes exampleLibs DEFAULT_OPTIONS)
      \<and> \<not> list_all no_marker ?t2"
    using b n k by (simp add: e)
  have r: "concat (map (replace_markers [Element ''aside'' [] [Text (defaultTemplate ''<ul>'')]])
        (fst (generateToc exampleLibs DEFAULT_OPTIONS ?t2)))
      = [Element ''h4'' [(''id'', ''d'')] [Text ''D''],
         Element ''aside'' [] [Text (defaultTemplate ''<ul>'')]]"
    by code_simp
  note t1 = t [of ?t1, THEN conjunct1, THEN mp, OF a]
  note t2 = t [of ?t2, THEN conjunct2, THEN conjunct1, THEN mp, OF b]
  note t4 = t [of "[]", THEN conjunct2, THEN conjunct2, THEN conjunct2, THEN conjunct2,
    THEN conjunct1, THEN mp, OF m]
  note t5 = t [of ?t2, THEN conjunct2, THEN conjunct2, THEN conjunct2, THEN conjunct2,
    THEN conjunct2, THEN mp, OF c]
  from t1 t2 t4 t5 a b d m n k show ?thesis
    unfolding e r by (simp add: numeral_3_eq_3)
qed

text \<open>
  With a template that returns the empty string the two results are the same: the
  document of one heading of depth 4 and the document without heading both give no node.
\<close>

theorem empty_template_same_output_counterexample:
  "collectHeadings emptyParseLibs [Element ''p'' [] [Comment ''toc'']] = []
   \<and> collectHeadings emptyParseLibs [Element ''h4'' [] [Text ''D'']]
       = [\<lparr>depth = 4, slug = ''d'', htext = ''D''\<rparr>]
   \<and> maxDepth (DEFAULT_OPTIONS\<lparr>template := emptyTemplate\<rparr>) = 3
   \<and> snd (generateToc emptyParseLibs (DEFAULT_OPTIONS\<lparr>template := emptyTemplate\<rparr>)
        [Element ''p'' [] [Comment ''toc'']]) = Inr []
   \<and> snd (generateToc emptyParseLibs (DEFAULT_OPTIONS\<lparr>template := emptyTemplate\<rparr>)
        [Element ''h4'' [] [Text ''D'']]) = Inr []"
  by code_simp

end
